theory Spec2Isabelle
  imports Complex_Main "HOL-Library.Word"
begin

unbundle bit_operations_syntax

section \<open>Values of the JavaScript runtime\<close>

text \<open>
  Positions and electrode values are JavaScript numbers that only ever hold integers; they
  are modelled as \<open>int\<close>. A JavaScript number is a double: its sums, differences and
  comparisons are those of \<open>int\<close> as long as the operands and the result stay below
  \<open>2 ^ 53\<close> in absolute value, as they do for the cells of the board; the properties
  that depend on it state the range. The bitwise operators of JavaScript first convert both
  operands to a signed 32-bit integer and return one, which is written out here through
  \<open>32 word\<close>.
\<close>

definition toInt32 :: "int \<Rightarrow> 32 word" where
  "toInt32 n = word_of_int n"

definition jsAnd :: "int \<Rightarrow> int \<Rightarrow> int" where
  "jsAnd a b = sint (toInt32 a AND toInt32 b)"

definition jsOr :: "int \<Rightarrow> int \<Rightarrow> int" where
  "jsOr a b = sint (toInt32 a OR toInt32 b)"

definition jsShl :: "int \<Rightarrow> nat \<Rightarrow> int" where
  "jsShl a n = sint (push_bit (n mod 32) (toInt32 a))"

definition jsShr :: "int \<Rightarrow> nat \<Rightarrow> int" where
  "jsShr a n = sint (signed_drop_bit (n mod 32) (toInt32 a))"

text \<open>
  Two things can go wrong when a nested array is indexed. Reading \<open>g[i][j]\<close> where row
  \<open>i\<close> does not exist raises a TypeError. Writing \<open>g[i][j] = v\<close> with \<open>j\<close> outside the
  row raises nothing in JavaScript: the row grows (or gains a property). The model stops at
  such a write with \<open>WriteOutsideGrid\<close>, so that a result \<open>Inr\<close> certifies that every
  write landed on an existing cell. A read of a missing column yields \<open>undefined\<close>, which
  every use in the program treats as false.
\<close>

datatype error = TypeError | WriteOutsideGrid

definition andThen :: "error + 'a \<Rightarrow> ('a \<Rightarrow> error + 'b) \<Rightarrow> error + 'b" where
  "andThen r f = (case r of Inl e \<Rightarrow> Inl e | Inr v \<Rightarrow> f v)"

fun foldE :: "('a \<Rightarrow> 's \<Rightarrow> error + 's) \<Rightarrow> 'a list \<Rightarrow> 's \<Rightarrow> error + 's" where
  "foldE f [] s = Inr s"
| "foldE f (a # as) s = andThen (f a s) (foldE f as)"

definition rowCell :: "bool list \<Rightarrow> nat \<Rightarrow> bool" where
  "rowCell row c = (c < length row \<and> row ! c)"

definition gridGet :: "bool list list \<Rightarrow> int \<Rightarrow> int \<Rightarrow> error + bool" where
  "gridGet g i j =
     (if 0 \<le> i \<and> i < int (length g)
      then Inr (0 \<le> j \<and> rowCell (g ! nat i) (nat j))
      else Inl TypeError)"

definition gridSet :: "bool list list \<Rightarrow> int \<Rightarrow> int \<Rightarrow> bool \<Rightarrow> error + bool list list" where
  "gridSet g i j v =
     (if 0 \<le> i \<and> i < int (length g) then
        (if 0 \<le> j \<and> j < int (length (g ! nat i))
         then Inr (g[nat i := (g ! nat i)[nat j := v]])
         else Inl WriteOutsideGrid)
      else Inl TypeError)"

section \<open>gameUtils\<close>

text \<open>The fields \<open>x\<close> and \<open>y\<close> of the source's \<open>Vec\<close> are the selectors \<open>vx\<close> and \<open>vy\<close>.\<close>

datatype Vec = Vec (vx: int) (vy: int)

definition vecAdd :: "Vec \<Rightarrow> Vec \<Rightarrow> Vec" where
  "vecAdd a b = Vec (vx a + vx b) (vy a + vy b)"

definition vecSub :: "Vec \<Rightarrow> Vec \<Rightarrow> Vec" where
  "vecSub a b = Vec (vx a - vx b) (vy a - vy b)"

text \<open>
  \<open>Math.sqrt\<close> and \<open>Math.pow\<close> are taken as the real square root and square. Between
  cells of the board the sum of the two squares is an integer of at most three digits, which
  a double holds exactly, and the rounded square roots of two such integers compare as the
  exact ones do.
\<close>

definition distance :: "Vec \<Rightarrow> Vec \<Rightarrow> real" where
  "distance a b = sqrt (real_of_int ((vx a - vx b) ^ 2) + real_of_int ((vy a - vy b) ^ 2))"

datatype Reservoir = TL | BL | TR | BR

definition dispenseSequence :: "int list" where
  "dispenseSequence = [0b1000, 0b1100, 0b0111, 0b0001, 0b1100, 0b1010, 0b1010]"

definition reverseNibble :: "int \<Rightarrow> int" where
  "reverseNibble nibble =
     jsOr (jsOr (jsOr (jsShl (jsAnd nibble 0b0001) 3) (jsShl (jsAnd nibble 0b0010) 1))
                (jsShr (jsAnd nibble 0b0100) 1))
          (jsShr (jsAnd nibble 0b1000) 3)"

definition dispenseDropFrame :: nat where
  "dispenseDropFrame = 3"

section \<open>Game: the board engine\<close>

text \<open>
  The timing fields (\<open>lastFrame\<close>, \<open>movementDelay\<close>, \<open>cleanupDelay\<close>) only pace the calls
  and are left out. The sink \<open>onTransmit\<close> is modelled by returning the frames that were
  handed to it, in order.
\<close>

definition boardSize :: Vec where
  "boardSize = Vec 16 8"

definition gameSize_x :: nat where
  "gameSize_x = nat (vx boardSize - 2)"

definition gameSize_y :: nat where
  "gameSize_y = nat (vy boardSize)"

record Game =
  electrodes :: "bool list list"
  needFilling :: "Vec list"
  currentlyMoving :: "Vec option"
  availableReservoirs :: "Reservoir list"
  specialElectrodesLeft :: int
  specialElectrodesRight :: int

type_synonym packet = "8 word list"

definition getDispenseLocation :: "Reservoir \<Rightarrow> Vec" where
  "getDispenseLocation reservoir =
     (case reservoir of
        TL \<Rightarrow> Vec 0 1
      | BL \<Rightarrow> Vec 0 (int gameSize_y - 2)
      | TR \<Rightarrow> Vec (int gameSize_x - 2) 1
      | BR \<Rightarrow> Vec (int gameSize_x - 2) (int gameSize_y - 2))"

definition Game_render :: "'a Game_scheme \<Rightarrow> error + 'a Game_scheme" where
  "Game_render g =
     (case currentlyMoving g of
        None \<Rightarrow> Inr g
      | Some cm \<Rightarrow>
          andThen (gridSet (electrodes g) (vy cm) (vx cm) True)
            (\<lambda>el. Inr (g\<lparr>electrodes := el\<rparr>)))"

text \<open>The inner loop of \<open>transmit\<close> over the rows \<open>ys\<close> of column \<open>x\<close>.\<close>

fun colByteLoop :: "bool list list \<Rightarrow> nat \<Rightarrow> nat list \<Rightarrow> int \<Rightarrow> error + int" where
  "colByteLoop el x [] colByte = Inr colByte"
| "colByteLoop el x (y # ys) colByte =
     andThen (gridGet el (int y) (int x))
       (\<lambda>b. colByteLoop el x ys (if b then jsOr colByte (jsShl 1 y) else colByte))"

text \<open>A store into the \<open>Uint8Array\<close> keeps the low eight bits: \<open>word_of_int\<close>.\<close>

definition packColumn :: "bool list list \<Rightarrow> nat \<Rightarrow> packet \<Rightarrow> error + packet" where
  "packColumn el x packet =
     andThen (colByteLoop el x [0..<gameSize_y] 0)
       (\<lambda>colByte. Inr (packet[x + 1 := word_of_int colByte]))"

definition transmit :: "'a Game_scheme \<Rightarrow> error + packet" where
  "transmit g =
     (let packet = replicate 32 0;
          packet = packet[0 := word_of_int (specialElectrodesLeft g)]
      in andThen (foldE (packColumn (electrodes g)) [0..<gameSize_x] packet)
           (\<lambda>packet.
              let packet = packet[15 := word_of_int (specialElectrodesRight g)];
                  packet = packet[16 := 0];
                  packet = packet[17 := 0]
              in Inr (fold (\<lambda>i p. p[i := 0]) [18..<32] packet)))"

definition updateReservoirState :: "Reservoir \<Rightarrow> int \<Rightarrow> 'a Game_scheme \<Rightarrow> 'a Game_scheme" where
  "updateReservoirState reservoirId nibble g =
     (if reservoirId = TL then
        g\<lparr>specialElectrodesLeft := jsOr (jsAnd (specialElectrodesLeft g) 0xf0) (jsAnd nibble 0x0f)\<rparr>
      else if reservoirId = BL then
        g\<lparr>specialElectrodesLeft := jsOr (jsAnd (specialElectrodesLeft g) 0x0f) (jsShl nibble 4)\<rparr>
      else if reservoirId = TR then
        g\<lparr>specialElectrodesRight := jsOr (jsAnd (specialElectrodesRight g) 0xf0) (jsAnd nibble 0x0f)\<rparr>
      else if reservoirId = BR then
        g\<lparr>specialElectrodesRight := jsOr (jsAnd (specialElectrodesRight g) 0x0f) (jsShl nibble 4)\<rparr>
      else g)"

text \<open>
  The body of the waveform loop of \<open>dispense\<close> for the step indices \<open>is\<close>; \<open>frames\<close>
  collects what each step transmits.
\<close>

fun dispenseLoop ::
  "Reservoir \<Rightarrow> Vec \<Rightarrow> nat list \<Rightarrow> 'a Game_scheme \<Rightarrow> packet list
   \<Rightarrow> error + ('a Game_scheme \<times> packet list)" where
  "dispenseLoop reservoir dropLocation [] g frames = Inr (g, frames)"
| "dispenseLoop reservoir dropLocation (i # is) g frames =
     (let nibble = dispenseSequence ! i;
          nibble = (if reservoir = BL \<or> reservoir = BR then reverseNibble nibble else nibble);
          g = updateReservoirState reservoir nibble g
      in andThen
           (if i = dispenseDropFrame then
              andThen (gridSet (electrodes g) (vy dropLocation) (vx dropLocation) True)
                (\<lambda>el. Inr (g\<lparr>electrodes := el\<rparr>))
            else Inr g)
           (\<lambda>g. andThen (transmit g)
              (\<lambda>frame. dispenseLoop reservoir dropLocation is g (frames @ [frame]))))"

definition dispense ::
  "Reservoir \<Rightarrow> 'a Game_scheme \<Rightarrow> error + ('a Game_scheme \<times> packet list \<times> Vec)" where
  "dispense reservoir g =
     (let dropLocation = getDispenseLocation reservoir;
          g = updateReservoirState reservoir 0b0000 g
      in andThen (transmit g)
           (\<lambda>frame0.
              andThen (dispenseLoop reservoir dropLocation [0..<length dispenseSequence] g [frame0])
                (\<lambda>(g, frames).
                   let defaultNibble = 0b1000;
                       defaultNibble =
                         (if reservoir = BL \<or> reservoir = BR
                          then reverseNibble defaultNibble else defaultNibble);
                       g = updateReservoirState reservoir defaultNibble g
                   in andThen (transmit g)
                        (\<lambda>frame. Inr (g, frames @ [frame], dropLocation)))))"

definition clear :: "'a Game_scheme \<Rightarrow> error + ('a Game_scheme \<times> packet list)" where
  "clear g =
     (let g = g\<lparr>electrodes := replicate gameSize_y (replicate gameSize_x False),
               specialElectrodesLeft := 0b00000000,
               specialElectrodesRight := 0b00000000\<rparr>
      in andThen (transmit g) (\<lambda>frame. Inr (g, [frame])))"

text \<open>
  The loop of \<open>findPath\<close>, on \<open>int\<close>. The source's loop computes the same cells as long
  as the coordinates are safe integers (below \<open>2 ^ 53\<close> in absolute value) and the path
  fits in an array; beyond that range an addition of the source can leave \<open>current\<close> as
  it is, and this definition does not describe it.
\<close>

function findPathLoop :: "Vec \<Rightarrow> Vec \<Rightarrow> Vec list \<Rightarrow> Vec list" where
  "findPathLoop current endp path =
     (if vx current \<noteq> vx endp \<or> vy current \<noteq> vy endp then
        (let current' =
           (if vx current \<noteq> vx endp then
              Vec (vx current + (if vx current < vx endp then 1 else - 1)) (vy current)
            else if vy current \<noteq> vy endp then
              Vec (vx current) (vy current + (if vy current < vy endp then 1 else - 1))
            else current)
         in findPathLoop current' endp (path @ [Vec (vx current') (vy current')]))
      else path)"
  by pat_completeness auto

termination
  by (relation "measure (\<lambda>(c, e, p). nat (\<bar>vx e - vx c\<bar> + \<bar>vy e - vy c\<bar>))") auto

definition findPath :: "Vec \<Rightarrow> Vec \<Rightarrow> Vec list" where
  "findPath start endp = findPathLoop (Vec (vx start) (vy start)) endp []"

text \<open>
  The reservoir search of \<open>fillTick\<close>. \<open>closestDistance\<close> starts at \<open>Infinity\<close>, which is
  \<open>None\<close> here: every distance is below it.
\<close>

fun closestLoop ::
  "Vec \<Rightarrow> Reservoir list \<Rightarrow> Reservoir option \<Rightarrow> real option \<Rightarrow> Reservoir option" where
  "closestLoop electrodeToFill [] closestReservoir closestDistance = closestReservoir"
| "closestLoop electrodeToFill (reservoir # rs) closestReservoir closestDistance =
     (let reservoirLocation = getDispenseLocation reservoir;
          dist = distance electrodeToFill reservoirLocation
      in if (case closestDistance of None \<Rightarrow> True | Some d \<Rightarrow> dist < d)
         then closestLoop electrodeToFill rs (Some reservoir) (Some dist)
         else closestLoop electrodeToFill rs closestReservoir closestDistance)"

definition fillTick :: "'a Game_scheme \<Rightarrow> error + ('a Game_scheme \<times> packet list)" where
  "fillTick g =
     (case needFilling g of
        [] \<Rightarrow> Inr (g, [])
      | electrodeToFill # rest \<Rightarrow>
          (case currentlyMoving g of
             None \<Rightarrow>
               (case closestLoop electrodeToFill (availableReservoirs g) None None of
                  None \<Rightarrow> Inr (g, [])
                | Some closestReservoir \<Rightarrow>
                    andThen (dispense closestReservoir g)
                      (\<lambda>(g, frames, dropLocation).
                         Inr (g\<lparr>currentlyMoving := Some dropLocation\<rparr>, frames)))
           | Some cm \<Rightarrow>
               (case findPath cm electrodeToFill of
                  [] \<Rightarrow> Inr (g, [])
                | nextStep # path \<Rightarrow>
                    andThen (gridSet (electrodes g) (vy nextStep) (vx nextStep) True)
                      (\<lambda>el. andThen (gridSet el (vy cm) (vx cm) False)
                         (\<lambda>el.
                            let g = g\<lparr>electrodes := el, currentlyMoving := Some nextStep\<rparr>
                            in if vx nextStep = vx electrodeToFill \<and> vy nextStep = vy electrodeToFill
                               then Inr (g\<lparr>needFilling := tl (needFilling g),
                                           currentlyMoving := None\<rparr>, [])
                               else Inr (g, []))))))"

section \<open>Tetromino\<close>

datatype TetrominoType =
  HORIZONTAL | LEFT_CORNER | RIGHT_CORNER | SQUARE | STEP_UP_LEFT | STEP_UP_RIGHT | PYRAMID

fun tetrominoShapes :: "TetrominoType \<Rightarrow> bool list list" where
  "tetrominoShapes HORIZONTAL =
     [[False, False, False, False],
      [True, True, True, True],
      [False, False, False, False],
      [False, False, False, False]]"
| "tetrominoShapes LEFT_CORNER =
     [[True, False, False],
      [True, True, True],
      [False, False, False]]"
| "tetrominoShapes RIGHT_CORNER =
     [[False, False, True],
      [True, True, True],
      [False, False, False]]"
| "tetrominoShapes SQUARE =
     [[False, True, True, False],
      [False, True, True, False],
      [False, False, False, False]]"
| "tetrominoShapes STEP_UP_LEFT =
     [[True, True, False],
      [False, True, True],
      [False, False, False]]"
| "tetrominoShapes STEP_UP_RIGHT =
     [[False, True, True],
      [True, True, False],
      [False, False, False]]"
| "tetrominoShapes PYRAMID =
     [[False, True, False],
      [True, True, True],
      [False, False, False]]"

text \<open>The fields \<open>size\<close> and \<open>type\<close> of the class are \<open>tsize\<close> and \<open>ttype\<close>.\<close>

record Tetromino =
  tsize :: Vec
  shape :: "bool list list"
  pos :: Vec
  ttype :: TetrominoType

definition centerPos :: Vec where
  "centerPos = Vec 1 1"

text \<open>The constructor \<open>new Tetromino(type, pos)\<close>.\<close>

definition newTetromino :: "TetrominoType \<Rightarrow> Vec \<Rightarrow> Tetromino" where
  "newTetromino ty p =
     \<lparr>tsize = Vec (int (length (tetrominoShapes ty ! 0))) (int (length (tetrominoShapes ty))),
      shape = tetrominoShapes ty,
      pos = p,
      ttype = ty\<rparr>"

text \<open>
  \<open>Tetromino.render\<close>: the loops run over \<open>size\<close>, \<open>x\<close> outside and \<open>y\<close> inside, and a
  cell is written only after the bounds test.
\<close>

definition tetrominoRenderCell ::
  "Tetromino \<Rightarrow> nat \<times> nat \<Rightarrow> bool list list \<Rightarrow> error + bool list list" where
  "tetrominoRenderCell t c el =
     (case c of (x, y) \<Rightarrow>
        andThen (gridGet (shape t) (int y) (int x))
          (\<lambda>b. if b then
                  (let targetY = vy (pos t) + int y;
                       targetX = vx (pos t) + int x
                   in if targetY \<ge> 0 \<and> targetY < int (length el) \<and> targetX \<ge> 0
                         \<and> targetX < int (length (el ! nat targetY))
                      then gridSet el targetY targetX True
                      else Inr el)
                else Inr el))"

definition Tetromino_render :: "Tetromino \<Rightarrow> bool list list \<Rightarrow> error + bool list list" where
  "Tetromino_render t el =
     foldE (tetrominoRenderCell t)
       (List.product [0..<nat (vx (tsize t))] [0..<nat (vy (tsize t))]) el"

text \<open>
  \<open>Tetromino.rotate\<close>. Every cell of the new \<open>size \<times> size\<close> matrix is assigned once. The
  row read always exists; a column missing from a row that is shorter than \<open>size\<close> reads as
  \<open>undefined\<close>, which is false wherever a shape is used.
\<close>

definition rotate :: "bool list list \<Rightarrow> int \<Rightarrow> bool list list" where
  "rotate sh direction =
     (let size = length sh in
      map (\<lambda>y. map (\<lambda>x.
             if direction = 1 then rowCell (sh ! (size - 1 - x)) y
             else rowCell (sh ! x) (size - 1 - y)) [0..<size]) [0..<size])"

section \<open>Tetris: the piece state machine\<close>

datatype Dir = LEFT | RIGHT | DOWN

fun Directions :: "Dir \<Rightarrow> Vec" where
  "Directions LEFT = Vec (- 1) 0"
| "Directions RIGHT = Vec 1 0"
| "Directions DOWN = Vec 0 1"

datatype RotationState = NotRotating | Starting | Coalesce | Ending

record Tetris = Game +
  gameElectrodes :: "bool list list"
  currentBlocks :: "bool list list"
  droppingTetro :: Tetromino
  finished :: bool
  moving :: Dir
  aboutRotate :: bool
  rotationState :: RotationState
  newShape :: "bool list list"

definition tetroSpawnPosition :: Vec where
  "tetroSpawnPosition = Vec (\<lceil>real gameSize_y / 2 - 2\<rceil>) 1"

definition topLevel :: nat where
  "topLevel = 3"

text \<open>
  The cells \<open>(x, y)\<close> of a shape that the loops over \<open>shape\<close> act on, in their order:
  rows outside, columns inside, empty cells skipped.
\<close>

definition shapeCells :: "bool list list \<Rightarrow> (nat \<times> nat) list" where
  "shapeCells sh =
     concat (map (\<lambda>y. map (\<lambda>x. (x, y)) (filter (\<lambda>x. sh ! y ! x) [0..<length (sh ! y)]))
               [0..<length sh])"

fun isValidMoveLoop :: "bool list list \<Rightarrow> Vec \<Rightarrow> (nat \<times> nat) list \<Rightarrow> error + bool" where
  "isValidMoveLoop blocks p [] = Inr True"
| "isValidMoveLoop blocks p ((x, y) # cs) =
     (let targetX = vx p + int x;
          targetY = vy p + int y
      in if targetX < 0 \<or> targetX \<ge> int gameSize_y \<or> targetY < 0 \<or> targetY \<ge> int gameSize_x
         then Inr False
         else andThen (gridGet blocks targetY targetX)
                (\<lambda>b. if b then Inr False else isValidMoveLoop blocks p cs))"

definition isValidMove :: "Tetris \<Rightarrow> Vec \<Rightarrow> bool list list \<Rightarrow> error + bool" where
  "isValidMove s p sh = isValidMoveLoop (currentBlocks s) p (shapeCells sh)"

fun hasLandedLoop :: "bool list list \<Rightarrow> Vec \<Rightarrow> (nat \<times> nat) list \<Rightarrow> error + bool" where
  "hasLandedLoop blocks p [] = Inr False"
| "hasLandedLoop blocks p ((x, y) # cs) =
     (let targetX = vx p + int x;
          targetY = vy p + int y;
          belowY = targetY + 1
      in if belowY \<ge> int gameSize_x then Inr True
         else andThen (gridGet blocks belowY targetX)
                (\<lambda>b. if b then Inr True else hasLandedLoop blocks p cs))"

definition hasLanded :: "Tetris \<Rightarrow> Vec \<Rightarrow> bool list list \<Rightarrow> error + bool" where
  "hasLanded s p sh = hasLandedLoop (currentBlocks s) p (shapeCells sh)"

text \<open>
  \<open>move\<close> is an async function that \<open>tick\<close> calls without awaiting it. Its body has no
  \<open>await\<close>, so it runs to its end inside the call; an exception in it rejects the promise
  that nobody reads, and \<open>tick\<close> goes on with the state as it was.
\<close>

definition move :: "Dir \<Rightarrow> Tetris \<Rightarrow> Tetris" where
  "move direction s =
     (let moveVector = Directions direction;
          newPos = vecAdd (pos (droppingTetro s)) moveVector
      in case isValidMove s newPos (shape (droppingTetro s)) of
           Inl e \<Rightarrow> s
         | Inr ok \<Rightarrow>
             (if ok then s\<lparr>droppingTetro := (droppingTetro s)\<lparr>pos := newPos\<rparr>\<rparr> else s)
               \<lparr>moving := DOWN\<rparr>)"

definition testRotations :: "int \<Rightarrow> Tetris \<Rightarrow> error + (Tetris \<times> bool)" where
  "testRotations dir s =
     (let newShape' = rotate (shape (droppingTetro s)) dir
      in andThen (isValidMove s (pos (droppingTetro s)) newShape')
           (\<lambda>ok. if ok then Inr (s\<lparr>newShape := newShape', rotationState := Starting\<rparr>, True)
                  else Inr (s, False)))"

definition applyRotation :: "Tetris \<Rightarrow> Tetris" where
  "applyRotation s =
     (case rotationState s of
        NotRotating \<Rightarrow> s
      | Starting \<Rightarrow> s\<lparr>rotationState := Coalesce\<rparr>
      | Coalesce \<Rightarrow> s\<lparr>droppingTetro := (droppingTetro s)\<lparr>shape := newShape s\<rparr>,
                       rotationState := Ending\<rparr>
      | Ending \<Rightarrow> s\<lparr>rotationState := NotRotating\<rparr>)"

definition resetRotationState :: "Tetris \<Rightarrow> Tetris" where
  "resetRotationState s = s\<lparr>rotationState := NotRotating\<rparr>"

definition finalizeCell :: "Vec \<Rightarrow> nat \<times> nat \<Rightarrow> bool list list \<Rightarrow> error + bool list list" where
  "finalizeCell p c blocks =
     (case c of (x, y) \<Rightarrow>
        (let targetX = vx p + int x;
             targetY = vy p + int y
         in gridSet blocks targetY targetX True))"

definition finalizeTetromino :: "Tetris \<Rightarrow> error + Tetris" where
  "finalizeTetromino s =
     andThen (foldE (finalizeCell (pos (droppingTetro s)))
                (shapeCells (shape (droppingTetro s))) (currentBlocks s))
       (\<lambda>blocks. Inr (s\<lparr>currentBlocks := blocks\<rparr>))"

definition tetrisCoordToGameCoord :: "Vec \<Rightarrow> Vec" where
  "tetrisCoordToGameCoord coord = Vec (vy coord) (int gameSize_y - 1 - vx coord)"

text \<open>
  \<open>primeDroppingTetro\<close>: the world coordinates of the occupied cells, row by row, are
  appended to \<open>needFilling\<close>.
\<close>

definition primeDroppingTetro :: "Tetris \<Rightarrow> Tetris" where
  "primeDroppingTetro s =
     (let shapeInWorldCoords =
            map (\<lambda>(x, y). tetrisCoordToGameCoord
                            (Vec (vx (pos (droppingTetro s)) + int x)
                                 (vy (pos (droppingTetro s)) + int y)))
                (shapeCells (shape (droppingTetro s)))
      in s\<lparr>needFilling := needFilling s @ shapeInWorldCoords\<rparr>)"

definition clearGameElectrodes :: "Tetris \<Rightarrow> Tetris" where
  "clearGameElectrodes s =
     s\<lparr>gameElectrodes := replicate gameSize_x (replicate gameSize_y False)\<rparr>"

text \<open>
  \<open>transposeElectrodes\<close> reads \<open>gameElectrodes[x][y]\<close> for every \<open>x\<close> below
  \<open>gameSize.x\<close>, which raises as soon as one of these rows is missing; otherwise
  \<open>transposed[gameSize.y - 1 - y][x]\<close> receives that value.
\<close>

definition transposeElectrodes :: "Tetris \<Rightarrow> error + bool list list" where
  "transposeElectrodes s =
     (if length (gameElectrodes s) < gameSize_x then Inl TypeError
      else Inr (map (\<lambda>r. map (\<lambda>x. rowCell (gameElectrodes s ! x) (gameSize_y - 1 - r))
                            [0..<gameSize_x])
                    [0..<gameSize_y]))"

text \<open>
  \<open>randomTetromino\<close> draws the kind of the next piece from \<open>Math.random\<close>; the draw is
  the argument \<open>rnd\<close> of \<open>tick\<close>. \<open>land\<close> is the branch of \<open>tick\<close> taken when the
  piece has landed.
\<close>

definition land :: "TetrominoType \<Rightarrow> Tetris \<Rightarrow> error + Tetris" where
  "land rnd s =
     andThen (finalizeTetromino (resetRotationState s))
       (\<lambda>s. andThen
               (if topLevel < length (currentBlocks s)
                then Inr (\<exists>cell \<in> set (currentBlocks s ! topLevel). cell)
                else Inl TypeError)
               (\<lambda>full.
                  let s = (if full then s\<lparr>finished := True\<rparr> else s)
                  in if \<not> finished s
                     then Inr (primeDroppingTetro
                                 (s\<lparr>droppingTetro := newTetromino rnd tetroSpawnPosition\<rparr>))
                     else Inr s))"

text \<open>
  \<open>tick\<close> in two halves. \<open>advance\<close> is the part before the landing test: the rotate
  request, then either one move or one step of the rotation. \<open>land\<close> above is the body
  of the landing branch.
\<close>

definition advance :: "Tetris \<Rightarrow> error + Tetris" where
  "advance s =
     andThen
       (if aboutRotate s
        then andThen (testRotations 1 s) (\<lambda>(s, ok). Inr (s\<lparr>aboutRotate := False\<rparr>))
        else Inr s)
       (\<lambda>s. Inr (if rotationState s = NotRotating then move (moving s) s
                  else applyRotation s))"

definition tick :: "TetrominoType \<Rightarrow> Tetris \<Rightarrow> error + Tetris" where
  "tick rnd s =
     (if finished s then Inr s
      else
        andThen (advance s)
          (\<lambda>s. andThen (hasLanded s (pos (droppingTetro s)) (shape (droppingTetro s)))
                 (\<lambda>landed. if landed then land rnd s else Inr s)))"

definition setMovement :: "Dir \<Rightarrow> Tetris \<Rightarrow> Tetris" where
  "setMovement direction s = (if finished s then s else s\<lparr>moving := direction\<rparr>)"

text \<open>The key handler of the page sets the rotate request.\<close>

definition requestRotate :: "Tetris \<Rightarrow> Tetris" where
  "requestRotate s = s\<lparr>aboutRotate := True\<rparr>"

definition renderBlock :: "bool list list \<Rightarrow> nat \<times> nat \<Rightarrow> bool list list \<Rightarrow> error + bool list list" where
  "renderBlock blocks c ge =
     (case c of (x, y) \<Rightarrow>
        andThen (gridGet blocks (int x) (int y))
          (\<lambda>b. if b then gridSet ge (int x) (int y) True else Inr ge))"

definition renderUnfilled ::
  "Vec \<Rightarrow> Vec list \<Rightarrow> nat \<times> nat \<Rightarrow> bool list list \<Rightarrow> error + bool list list" where
  "renderUnfilled p queue c ge =
     (case c of (x, y) \<Rightarrow>
        (let tetrisCoords = Vec (vx p + int x) (vy p + int y);
             gameCoords = tetrisCoordToGameCoord tetrisCoords
         in if \<not> (\<exists>coord \<in> set queue. vx coord = vx gameCoords \<and> vy coord = vy gameCoords)
            then gridSet ge (vy tetrisCoords) (vx tetrisCoords) True
            else Inr ge))"

text \<open>
  \<open>Tetris.render\<close> up to the point where the composed \<open>gameElectrodes\<close> is complete. The
  last branch of the source (no dropping piece) cannot be taken: \<open>droppingTetro\<close> is
  always an object.
\<close>

definition compose :: "Tetris \<Rightarrow> error + Tetris" where
  "compose s =
     (let s = clearGameElectrodes s
      in andThen (foldE (renderBlock (currentBlocks s))
                    (List.product [0..<gameSize_x] [0..<gameSize_y]) (gameElectrodes s))
           (\<lambda>ge.
              andThen
                (if needFilling s \<noteq> [] then
                   foldE (renderUnfilled (pos (droppingTetro s)) (needFilling s))
                     (shapeCells (shape (droppingTetro s))) ge
                 else if rotationState s \<noteq> NotRotating then
                   (case rotationState s of
                      Coalesce \<Rightarrow>
                        (let c = vecAdd (pos (droppingTetro s)) centerPos
                         in gridSet ge (vy c) (vx c) True)
                    | _ \<Rightarrow> Tetromino_render (droppingTetro s) ge)
                 else Tetromino_render (droppingTetro s) ge)
                (\<lambda>ge. Inr (s\<lparr>gameElectrodes := ge\<rparr>))))"

definition render :: "Tetris \<Rightarrow> error + Tetris" where
  "render s =
     andThen (compose s)
       (\<lambda>s. andThen (transposeElectrodes s)
          (\<lambda>el. Game_render (s\<lparr>electrodes := el\<rparr>)))"

text \<open>The object as its field initialisers leave it, with the first piece of kind \<open>rnd\<close>.\<close>

definition newTetris :: "TetrominoType \<Rightarrow> Tetris" where
  "newTetris rnd =
     \<lparr>electrodes = replicate gameSize_y (replicate gameSize_x False),
      needFilling = [],
      currentlyMoving = None,
      availableReservoirs = [TL, BL, TR, BR],
      specialElectrodesLeft = 0b00000000,
      specialElectrodesRight = 0b00000000,
      gameElectrodes = replicate gameSize_x (replicate gameSize_y False),
      currentBlocks = replicate gameSize_x (replicate gameSize_y False),
      droppingTetro = newTetromino rnd tetroSpawnPosition,
      finished = False,
      moving = DOWN,
      aboutRotate = False,
      rotationState = NotRotating,
      newShape = []\<rparr>"

definition init :: "Tetris \<Rightarrow> error + (Tetris \<times> packet list)" where
  "init s =
     andThen (clear s)
       (\<lambda>(s, frames).
          Inr (primeDroppingTetro
                 (s\<lparr>specialElectrodesLeft := 0b00011000,
                    specialElectrodesRight := 0b00011000,
                    availableReservoirs := [TL, BL]\<rparr>), frames))"

text \<open>
  \<open>update\<close>: \<open>newTick\<close> says whether the movement delay has passed since the last
  accepted tick.
\<close>

definition update :: "bool \<Rightarrow> TetrominoType \<Rightarrow> Tetris \<Rightarrow> error + (Tetris \<times> packet list)" where
  "update newTick rnd s =
     andThen
       (if newTick then
          (if needFilling s \<noteq> [] then fillTick s
           else andThen (tick rnd s) (\<lambda>s. Inr (s, [])))
        else Inr (s, []))
       (\<lambda>(s, frames).
          andThen (render s)
            (\<lambda>s. andThen (transmit s) (\<lambda>frame. Inr (s, frames @ [frame]))))"

section \<open>Notions used to state the properties\<close>

text \<open>The Manhattan distance between two cells.\<close>

definition manhattan :: "Vec \<Rightarrow> Vec \<Rightarrow> int" where
  "manhattan a b = \<bar>vx a - vx b\<bar> + \<bar>vy a - vy b\<bar>"

text \<open>
  The integers on which the arithmetic of JavaScript numbers is exact
  (\<open>Number.isSafeInteger\<close>): between two of them \<open>+= 1\<close>, \<open>+= -1\<close>, \<open><\<close> and \<open>!==\<close>
  compute what they compute on \<open>int\<close>. From \<open>2 ^ 53\<close> on, adding one to a number can
  leave it as it is.
\<close>

definition isSafeInteger :: "int \<Rightarrow> bool" where
  "isSafeInteger n \<longleftrightarrow> \<bar>n\<bar> \<le> 2 ^ 53 - 1"

text \<open>
  The cell that one pass of the loop of \<open>findPath\<close> moves to, and the closed form of
  the \<open>i\<close>-th cell of the path from \<open>c\<close> to \<open>e\<close>.
\<close>

definition stepToward :: "Vec \<Rightarrow> Vec \<Rightarrow> Vec" where
  "stepToward c e =
     (if vx c \<noteq> vx e then Vec (vx c + (if vx c < vx e then 1 else - 1)) (vy c)
      else if vy c \<noteq> vy e then Vec (vx c) (vy c + (if vy c < vy e then 1 else - 1))
      else c)"

definition pathCell :: "Vec \<Rightarrow> Vec \<Rightarrow> nat \<Rightarrow> Vec" where
  "pathCell c e i =
     (if int i < \<bar>vx e - vx c\<bar> then Vec (vx c + sgn (vx e - vx c) * (int i + 1)) (vy c)
      else Vec (vx e) (vy c + sgn (vy e - vy c) * (int i + 1 - \<bar>vx e - vx c\<bar>)))"

text \<open>
  The frame in closed form: the byte of column \<open>x\<close> has bit \<open>y\<close> set when
  \<open>el[y][x]\<close> is active.
\<close>

definition columnByte :: "bool list list \<Rightarrow> nat \<Rightarrow> 8 word" where
  "columnByte el x = horner_sum of_bool 2 (map (\<lambda>y. rowCell (el ! y) x) [0..<gameSize_y])"

definition encodeFrame :: "int \<Rightarrow> bool list list \<Rightarrow> int \<Rightarrow> packet" where
  "encodeFrame l el r =
     word_of_int l # map (columnByte el) [0..<gameSize_x] @ word_of_int r # replicate 16 0"

text \<open>
  What a receiver reads off a frame: the half-byte that belongs to a reservoir, and the
  fourteen bytes of the main grid.
\<close>

definition frameNibble :: "Reservoir \<Rightarrow> packet \<Rightarrow> 8 word" where
  "frameNibble reservoir frame =
     (case reservoir of
        TL \<Rightarrow> (frame ! 0) AND 0x0f
      | BL \<Rightarrow> drop_bit 4 (frame ! 0)
      | TR \<Rightarrow> (frame ! 15) AND 0x0f
      | BR \<Rightarrow> drop_bit 4 (frame ! 15))"

definition frameGrid :: "packet \<Rightarrow> 8 word list" where
  "frameGrid frame = take gameSize_x (drop 1 frame)"

text \<open>
  A matrix of \<open>h\<close> rows of \<open>w\<close> cells each, and a matrix with one more cell switched
  on.
\<close>

definition isGrid :: "nat \<Rightarrow> nat \<Rightarrow> bool list list \<Rightarrow> bool" where
  "isGrid h w g = (length g = h \<and> list_all (\<lambda>row. length row = w) g)"

definition cellOn :: "bool list list \<Rightarrow> Vec \<Rightarrow> bool list list" where
  "cellOn el c = el[nat (vy c) := (el ! nat (vy c))[nat (vx c) := True]]"

text \<open>
  One waveform step on a well-formed matrix (where the write of the drop frame succeeds),
  and the frame that \<open>transmit\<close> builds from a state.
\<close>

definition waveStep :: "Reservoir \<Rightarrow> nat \<Rightarrow> 'a Game_scheme \<Rightarrow> 'a Game_scheme" where
  "waveStep r i g =
     (let g1 = updateReservoirState r
                 (if r = BL \<or> r = BR then reverseNibble (dispenseSequence ! i)
                  else dispenseSequence ! i) g
      in if i = dispenseDropFrame
         then g1\<lparr>electrodes := cellOn (electrodes g1) (getDispenseLocation r)\<rparr> else g1)"

definition frameOf :: "'a Game_scheme \<Rightarrow> packet" where
  "frameOf g = encodeFrame (specialElectrodesLeft g) (electrodes g) (specialElectrodesRight g)"

text \<open>The half-byte of a reservoir in the stored special-electrode values.\<close>

definition reservoirNibble :: "Reservoir \<Rightarrow> 'a Game_scheme \<Rightarrow> int" where
  "reservoirNibble reservoir g =
     (case reservoir of
        TL \<Rightarrow> jsAnd (specialElectrodesLeft g) 0x0f
      | BL \<Rightarrow> jsAnd (jsShr (specialElectrodesLeft g) 4) 0x0f
      | TR \<Rightarrow> jsAnd (specialElectrodesRight g) 0x0f
      | BR \<Rightarrow> jsAnd (jsShr (specialElectrodesRight g) 4) 0x0f)"

text \<open>The nibble as \<open>dispense\<close> writes it: reversed for the bottom reservoirs.\<close>

definition waveNibble :: "Reservoir \<Rightarrow> int \<Rightarrow> int" where
  "waveNibble r n = (if r = BL \<or> r = BR then reverseNibble n else n)"

text \<open>
  A board as \<open>init\<close> leaves it, with the electrode of column 0, row 1 switched on.
\<close>

definition exampleGame :: Game where
  "exampleGame =
     \<lparr>electrodes = (replicate 8 (replicate 14 False))[1 := (replicate 14 False)[0 := True]],
      needFilling = [],
      currentlyMoving = None,
      availableReservoirs = [TL, BL],
      specialElectrodesLeft = 0b00011000,
      specialElectrodesRight = 0b00011000\<rparr>"

text \<open>The cells of the electrode matrix: 14 columns \<open>x\<close> and 8 rows \<open>y\<close>.\<close>

definition inElectrodes :: "Vec \<Rightarrow> bool" where
  "inElectrodes v =
     (0 \<le> vx v \<and> vx v < int gameSize_x \<and> 0 \<le> vy v \<and> vy v < int gameSize_y)"

text \<open>
  A queue whose head \<open>(6, 1)\<close> is equally far from the targets of \<open>TL\<close> and \<open>TR\<close> and
  farther from the target of \<open>BL\<close>, which comes first in the availability list.
\<close>

definition tieGame :: Game where
  "tieGame = exampleGame\<lparr>needFilling := [Vec 6 1], availableReservoirs := [BL, TL, TR]\<rparr>"

text \<open>
  The playable grid in the coordinates of the piece: \<open>x\<close> runs over the
  \<open>gameSize.y\<close> columns, \<open>y\<close> over the \<open>gameSize.x\<close> rows.
\<close>

definition cellInPlayable :: "Vec \<Rightarrow> nat \<times> nat \<Rightarrow> bool" where
  "cellInPlayable p c =
     (0 \<le> vx p + int (fst c) \<and> vx p + int (fst c) < int gameSize_y
      \<and> 0 \<le> vy p + int (snd c) \<and> vy p + int (snd c) < int gameSize_x)"

definition inPlayable :: "Vec \<Rightarrow> bool list list \<Rightarrow> bool" where
  "inPlayable p sh = list_all (cellInPlayable p) (shapeCells sh)"

text \<open>Cell \<open>(tx, ty)\<close> of a grid indexed \<open>[ty][tx]\<close> is occupied.\<close>

definition occupiedAt :: "bool list list \<Rightarrow> int \<Rightarrow> int \<Rightarrow> bool" where
  "occupiedAt blocks tx ty =
     (0 \<le> ty \<and> ty < int (length blocks) \<and> 0 \<le> tx \<and> rowCell (blocks ! nat ty) (nat tx))"

text \<open>
  The shapes a piece of a kind can take: its catalogue shape and four clockwise rotations
  (a fifth rotation gives the first rotation again for every kind).
\<close>

definition orientations :: "TetrominoType \<Rightarrow> bool list list list" where
  "orientations ty =
     (let r0 = tetrominoShapes ty;
          r1 = rotate r0 1;
          r2 = rotate r1 1;
          r3 = rotate r2 1;
          r4 = rotate r3 1
      in [r0, r1, r2, r3, r4])"

text \<open>
  Two shapes that between them have a cell in the column and a cell in the row of
  \<open>centerPos\<close>.
\<close>

definition coversCenter :: "bool list list \<Rightarrow> bool list list \<Rightarrow> bool" where
  "coversCenter sh sh' =
     (list_ex (\<lambda>c. int (fst c) = vx centerPos) (shapeCells sh @ shapeCells sh')
      \<and> list_ex (\<lambda>c. int (snd c) = vy centerPos) (shapeCells sh @ shapeCells sh'))"

text \<open>
  The invariant of the piece state machine: the static grid has the rows and columns of
  the playable grid, the piece lies in the playable grid, its shape is an orientation of
  its kind, its size is the one of its kind, and while a rotation waits for its swap the
  new shape is the rotated one and lies in the playable grid too.
\<close>

definition pieceInv :: "Tetris \<Rightarrow> bool" where
  "pieceInv s =
     (isGrid gameSize_x gameSize_y (currentBlocks s)
      \<and> inPlayable (pos (droppingTetro s)) (shape (droppingTetro s))
      \<and> shape (droppingTetro s) \<in> set (orientations (ttype (droppingTetro s)))
      \<and> tsize (droppingTetro s)
          = tsize (newTetromino (ttype (droppingTetro s)) tetroSpawnPosition)
      \<and> (rotationState s = Starting \<or> rotationState s = Coalesce \<longrightarrow>
            newShape s = rotate (shape (droppingTetro s)) 1
            \<and> inPlayable (pos (droppingTetro s)) (newShape s)))"

text \<open>
  The invariant of the board engine: the electrode matrix has its 8 rows of 14 cells, and
  the queued cells and the droplet in transit lie on it.
\<close>

definition boardInv :: "'a Game_scheme \<Rightarrow> bool" where
  "boardInv g =
     (isGrid gameSize_y gameSize_x (electrodes g)
      \<and> list_all inElectrodes (needFilling g)
      \<and> (case currentlyMoving g of None \<Rightarrow> True | Some cm \<Rightarrow> inElectrodes cm))"

text \<open>
  The engine as the page drives it: \<open>init\<close> on the fresh object, then any sequence of
  \<open>update\<close> calls and key presses. A key press only sets \<open>moving\<close> or \<open>aboutRotate\<close>,
  which nothing but \<open>tick\<close> reads, so a key pressed while \<open>update\<close> waits inside a
  dispense acts like one pressed just before or after that \<open>update\<close>.
\<close>

datatype Event = Update bool TetrominoType | SetMovement Dir | RequestRotate

fun stepEvent :: "Event \<Rightarrow> Tetris \<Rightarrow> error + Tetris" where
  "stepEvent (Update newTick rnd) s = andThen (update newTick rnd s) (\<lambda>(s, frames). Inr s)"
| "stepEvent (SetMovement direction) s = Inr (setMovement direction s)"
| "stepEvent RequestRotate s = Inr (requestRotate s)"

definition play :: "TetrominoType \<Rightarrow> Event list \<Rightarrow> error + Tetris" where
  "play rnd evs = andThen (init (newTetris rnd)) (\<lambda>(s, frames). foldE stepEvent evs s)"

definition engineInv :: "Tetris \<Rightarrow> bool" where
  "engineInv s = (pieceInv s \<and> boardInv s \<and> isGrid gameSize_x gameSize_y (gameElectrodes s))"






text \<open>A fresh I-piece above a stack that reaches row 4 in column 2.\<close>

definition landingExample :: Tetris where
  "landingExample =
     (newTetris HORIZONTAL)
       \<lparr>currentBlocks :=
          (replicate gameSize_x (replicate gameSize_y False))
            [4 := (replicate gameSize_y False)[2 := True]]\<rparr>"

section \<open>Properties\<close>

subsection \<open>Rotation\<close>

lemma rotate_length: "length (rotate sh d) = length sh"
  by (simp add: rotate_def Let_def)

lemma rotate_row_length: "r < length sh \<Longrightarrow> length (rotate sh d ! r) = length sh"
  by (simp add: rotate_def Let_def)

lemma rotate_cw_nth:
  "r < length sh \<Longrightarrow> c < length sh \<Longrightarrow>
   rotate sh 1 ! r ! c = rowCell (sh ! (length sh - 1 - c)) r"
  by (simp add: rotate_def Let_def)

lemma rotate_ccw_nth:
  "r < length sh \<Longrightarrow> c < length sh \<Longrightarrow> d \<noteq> 1 \<Longrightarrow>
   rotate sh d ! r ! c = rowCell (sh ! c) (length sh - 1 - r)"
  by (simp add: rotate_def Let_def)

lemma rotate_inverse_aux:
  assumes sq: "\<forall>row \<in> set sh. length row = length sh"
  shows "rotate (rotate sh 1) (- 1) = sh"
proof (rule nth_equalityI)
  show "length (rotate (rotate sh 1) (- 1)) = length sh"
    by (simp add: rotate_length)
next
  fix r assume "r < length (rotate (rotate sh 1) (- 1))"
  then have r: "r < length sh" by (simp add: rotate_length)
  have lr: "length (sh ! r) = length sh" using sq r by simp
  show "rotate (rotate sh 1) (- 1) ! r = sh ! r"
  proof (rule nth_equalityI)
    show "length (rotate (rotate sh 1) (- 1) ! r) = length (sh ! r)"
      using r lr by (simp add: rotate_row_length rotate_length)
  next
    fix c assume "c < length (rotate (rotate sh 1) (- 1) ! r)"
    then have c: "c < length sh"
      using r by (simp add: rotate_row_length rotate_length)
    have "rotate (rotate sh 1) (- 1) ! r ! c
            = rowCell (rotate sh 1 ! c) (length sh - 1 - r)"
      using r c by (simp add: rotate_ccw_nth rotate_length)
    also have "\<dots> = rotate sh 1 ! c ! (length sh - 1 - r)"
      proof -
      have "length sh - 1 - r < length sh" using r by arith
      then show ?thesis using c by (simp add: rowCell_def rotate_row_length)
    qed
    also have "\<dots> = rowCell (sh ! (length sh - 1 - (length sh - 1 - r))) c"
    proof -
      have "length sh - 1 - r < length sh" using r by arith
      then show ?thesis using c by (simp add: rotate_cw_nth)
    qed
    also have "\<dots> = sh ! r ! c"
    proof -
      have "length sh - 1 - (length sh - 1 - r) = r" using r by arith
      then show ?thesis using c lr by (simp add: rowCell_def)
    qed
    finally show "rotate (rotate sh 1) (- 1) ! r ! c = sh ! r ! c" .
  qed
qed

text \<open>
  Claim C9. For a square shape, rotating clockwise and then counter-clockwise gives the
  shape back; clockwise rotation sets \<open>new[y][x] = old[N-1-x][y]\<close> and counter-clockwise
  rotation sets \<open>new[y][x] = old[x][N-1-y]\<close>.
\<close>

theorem rotate_cw_then_ccw_restores:
  assumes "\<forall>row \<in> set sh. length row = length sh"
  shows "rotate (rotate sh 1) (- 1) = sh
       \<and> (\<forall>r < length sh. \<forall>c < length sh.
             rotate sh 1 ! r ! c = sh ! (length sh - 1 - c) ! r
           \<and> rotate sh (- 1) ! r ! c = sh ! c ! (length sh - 1 - r))"
proof -
  have cells: "rotate sh 1 ! r ! c = sh ! (length sh - 1 - c) ! r
             \<and> rotate sh (- 1) ! r ! c = sh ! c ! (length sh - 1 - r)"
    if r: "r < length sh" and c: "c < length sh" for r c
  proof -
    have i1: "length sh - 1 - c < length sh" and i2: "length sh - 1 - r < length sh"
      using r c by arith+
    have l1: "length (sh ! (length sh - 1 - c)) = length sh"
      using assms i1 by simp
    have l2: "length (sh ! c) = length sh"
      using assms c by simp
    show ?thesis
      using r c i2 l1 l2 by (simp add: rotate_cw_nth rotate_ccw_nth rowCell_def)
  qed
  show ?thesis
    using rotate_inverse_aux [OF assms] cells by blast
qed

theorem rotate_cw_then_ccw_restores_witness:
  "rotate [[False, True, False], [True, True, True], [False, False, False]] 1
       = [[False, True, False], [False, True, True], [False, True, False]]
   \<and> rotate (rotate [[False, True, False], [True, True, True], [False, False, False]] 1) (- 1)
       = [[False, True, False], [True, True, True], [False, False, False]]"
proof -
  let ?sh = "[[False, True, False], [True, True, True], [False, False, False]]"
  have sq: "\<forall>row \<in> set ?sh. length row = length ?sh" by simp
  have cw: "rotate ?sh 1 = [[False, True, False], [False, True, True], [False, True, False]]"
    by (simp add: rotate_def rowCell_def Let_def upt_rec [of 0] upt_rec [of 1] upt_rec [of 2])
  show ?thesis
    using rotate_cw_then_ccw_restores [OF sq] sq cw by blast
qed

subsection \<open>Paths\<close>

declare findPathLoop.simps [simp del]

lemma manhattan_step:
  "c \<noteq> e \<Longrightarrow> manhattan (stepToward c e) e = manhattan c e - 1"
  by (cases c; cases e) (auto simp: manhattan_def stepToward_def)

lemma manhattan_zero: "manhattan c e = 0 \<longleftrightarrow> c = e"
  by (cases c; cases e) (auto simp: manhattan_def)

lemma manhattan_nonneg: "0 \<le> manhattan c e"
  by (simp add: manhattan_def)

lemma findPathLoop_unfold:
  "c \<noteq> e \<Longrightarrow> findPathLoop c e p = findPathLoop (stepToward c e) e (p @ [stepToward c e])"
proof -
  assume "c \<noteq> e"
  then have t: "vx c \<noteq> vx e \<or> vy c \<noteq> vy e" by (auto simp: Vec.expand)
  then show ?thesis
    by (subst findPathLoop.simps) (auto simp: stepToward_def Let_def)
qed

lemma findPathLoop_stop: "findPathLoop e e p = p"
  by (subst findPathLoop.simps) simp

lemma findPathLoop_acc: "findPathLoop c e p = p @ findPathLoop c e []"
proof (induction "nat (manhattan c e)" arbitrary: c p)
  case 0
  then have "c = e" using manhattan_zero [of c e] manhattan_nonneg [of c e] by simp
  then show ?case by (simp add: findPathLoop_stop)
next
  case (Suc n)
  then have ne: "c \<noteq> e" using manhattan_zero [of c e] by auto
  let ?n = "stepToward c e"
  have m: "n = nat (manhattan ?n e)"
    using Suc.hyps(2) ne by (simp add: manhattan_step)
  have "findPathLoop c e p = findPathLoop ?n e (p @ [?n])"
    using ne by (rule findPathLoop_unfold)
  also have "\<dots> = (p @ [?n]) @ findPathLoop ?n e []"
    using m by (rule Suc.hyps(1))
  also have "\<dots> = p @ ([] @ [?n]) @ findPathLoop ?n e []" by simp
  also have "\<dots> = p @ findPathLoop ?n e ([] @ [?n])"
    using Suc.hyps(1) [OF m, of "[] @ [?n]"] by simp
  also have "\<dots> = p @ findPathLoop c e []"
    using findPathLoop_unfold [OF ne, of "[]"] by simp
  finally show ?case .
qed

lemma findPathLoop_done: "c = e \<Longrightarrow> findPathLoop c e [] = []"
  by (simp add: findPathLoop_stop)

lemma findPathLoop_step:
  "c \<noteq> e \<Longrightarrow> findPathLoop c e [] = stepToward c e # findPathLoop (stepToward c e) e []"
  using findPathLoop_unfold [of c e "[]"] findPathLoop_acc [of "stepToward c e" e "[stepToward c e]"]
  by simp

lemma findPathLoop_length: "length (findPathLoop c e []) = nat (manhattan c e)"
proof (induction "nat (manhattan c e)" arbitrary: c)
  case 0
  then have "c = e" using manhattan_zero [of c e] manhattan_nonneg [of c e] by simp
  then show ?case by (simp add: findPathLoop_done manhattan_def)
next
  case (Suc n)
  then have ne: "c \<noteq> e" using manhattan_zero [of c e] by auto
  have "n = nat (manhattan (stepToward c e) e)"
    using Suc.hyps(2) ne by (simp add: manhattan_step)
  then have "length (findPathLoop (stepToward c e) e []) = n"
    using Suc.hyps(1) by simp
  then show ?case using ne Suc.hyps(2) by (simp add: findPathLoop_step)
qed

lemma pathCell_0: "c \<noteq> e \<Longrightarrow> pathCell c e 0 = stepToward c e"
  by (cases c; cases e) (auto simp: pathCell_def stepToward_def)

lemma pathCell_Suc:
  "Suc i < nat (manhattan c e) \<Longrightarrow> pathCell c e (Suc i) = pathCell (stepToward c e) e i"
  by (cases c; cases e) (auto simp: pathCell_def stepToward_def manhattan_def sgn_if)

lemma findPathLoop_nth:
  "i < nat (manhattan c e) \<Longrightarrow> findPathLoop c e [] ! i = pathCell c e i"
proof (induction i arbitrary: c)
  case 0
  then have ne: "c \<noteq> e" using manhattan_zero [of c e] by auto
  then show ?case by (simp add: findPathLoop_step pathCell_0)
next
  case (Suc i)
  then have ne: "c \<noteq> e" using manhattan_zero [of c e] by auto
  have "i < nat (manhattan (stepToward c e) e)"
    using Suc.prems ne by (simp add: manhattan_step)
  then have "findPathLoop (stepToward c e) e [] ! i = pathCell (stepToward c e) e i"
    by (rule Suc.IH)
  then show ?case using ne Suc.prems by (simp add: findPathLoop_step pathCell_Suc)
qed

lemma manhattan_pathCell:
  "i < nat (manhattan c e) \<Longrightarrow> manhattan (pathCell c e i) e = manhattan c e - 1 - int i"
  by (cases c; cases e) (auto simp: manhattan_def pathCell_def sgn_if abs_if split: if_splits)

lemma findPath_eq: "findPath a b = findPathLoop a b []"
  by (simp add: findPath_def)

lemma findPath_length: "length (findPath a b) = nat (manhattan a b)"
  by (simp add: findPath_eq findPathLoop_length)

lemma findPath_nth: "i < length (findPath a b) \<Longrightarrow> findPath a b ! i = pathCell a b i"
  by (simp add: findPath_eq findPathLoop_nth findPathLoop_length)

lemma findPath_prev:
  "i < length (findPath a b) \<Longrightarrow>
   (a # findPath a b) ! i = (if i = 0 then a else pathCell a b (i - 1))"
  by (cases i) (simp_all add: findPath_nth)

lemma pathCell_step_facts:
  assumes "i < nat (manhattan a b)"
  shows "manhattan (if i = 0 then a else pathCell a b (i - 1)) (pathCell a b i) = 1"
    and "int i < \<bar>vx a - vx b\<bar> \<Longrightarrow>
           vy (pathCell a b i) = vy (if i = 0 then a else pathCell a b (i - 1))"
    and "\<bar>vx a - vx b\<bar> \<le> int i \<Longrightarrow>
           vx (pathCell a b i) = vx b \<and> vx (if i = 0 then a else pathCell a b (i - 1)) = vx b"
    and "manhattan (pathCell a b i) b < manhattan (if i = 0 then a else pathCell a b (i - 1)) b"
  using assms
  by (cases a; cases b; cases i;
      auto simp: manhattan_def pathCell_def sgn_if abs_if split: if_splits)+

lemma findPath_distinct: "distinct (findPath a b)"
proof -
  have "findPath a b ! i \<noteq> findPath a b ! j"
    if "i < length (findPath a b)" "j < length (findPath a b)" "i \<noteq> j" for i j
  proof
    assume eq: "findPath a b ! i = findPath a b ! j"
    have "manhattan (findPath a b ! i) b = manhattan a b - 1 - int i"
      using that(1) by (simp add: findPath_nth findPath_length manhattan_pathCell)
    moreover have "manhattan (findPath a b ! j) b = manhattan a b - 1 - int j"
      using that(2) by (simp add: findPath_nth findPath_length manhattan_pathCell)
    ultimately show False using eq that(3) by simp
  qed
  then show ?thesis by (simp add: distinct_conv_nth)
qed

lemma findPath_excludes_start: "a \<notin> set (findPath a b)"
proof
  assume "a \<in> set (findPath a b)"
  then obtain i where i: "i < length (findPath a b)" and eq: "findPath a b ! i = a"
    by (auto simp: in_set_conv_nth)
  have "manhattan (findPath a b ! i) b = manhattan a b - 1 - int i"
    using i by (simp add: findPath_nth findPath_length manhattan_pathCell)
  then show False using eq by simp
qed

lemma pathCell_between:
  assumes "i < nat (manhattan a b)"
  shows "min (vx a) (vx b) \<le> vx (pathCell a b i) \<and> vx (pathCell a b i) \<le> max (vx a) (vx b)
       \<and> min (vy a) (vy b) \<le> vy (pathCell a b i) \<and> vy (pathCell a b i) \<le> max (vy a) (vy b)"
  using assms
  by (cases a; cases b)
     (auto simp: manhattan_def pathCell_def sgn_if abs_if split: if_splits)

lemma findPath_safe:
  assumes "isSafeInteger (vx a)" "isSafeInteger (vy a)"
    and "isSafeInteger (vx b)" "isSafeInteger (vy b)"
    and "c \<in> set (findPath a b)"
  shows "isSafeInteger (vx c) \<and> isSafeInteger (vy c)"
proof -
  from assms(5) obtain i where i: "i < length (findPath a b)" and c: "c = findPath a b ! i"
    by (auto simp: in_set_conv_nth)
  have m: "i < nat (manhattan a b)" using i by (simp add: findPath_length)
  have "c = pathCell a b i" using c i by (simp add: findPath_nth)
  then show ?thesis
    using pathCell_between [OF m] assms(1-4) unfolding isSafeInteger_def by auto
qed

text \<open>
  Claim C3. For positions \<open>a\<close> and \<open>b\<close> whose coordinates are safe integers and whose
  path fits in an array (fewer than \<open>2 ^ 32\<close> cells), \<open>findPath a b\<close> leaves out the start
  cell, has exactly \<open>|a.x - b.x| + |a.y - b.y|\<close> cells, moves one cell per step, makes its
  first \<open>|a.x - b.x|\<close> steps horizontally and all later ones vertically at \<open>x = b.x\<close>,
  comes strictly closer to \<open>b\<close> in Manhattan distance with every step, repeats no
  cell, and is empty exactly when \<open>a = b\<close>. Entry \<open>i\<close> of \<open>a # findPath a b\<close> is the
  cell before entry \<open>i\<close> of the path. Every coordinate the loop computes is a coordinate
  of a cell of the path, and all of them are safe integers.
\<close>

theorem findPath_manhattan_path:
  assumes "isSafeInteger (vx a)" "isSafeInteger (vy a)"
    and "isSafeInteger (vx b)" "isSafeInteger (vy b)"
    and "\<bar>vx a - vx b\<bar> + \<bar>vy a - vy b\<bar> < 2 ^ 32"
  shows "a \<notin> set (findPath a b)
   \<and> length (findPath a b) = nat (\<bar>vx a - vx b\<bar> + \<bar>vy a - vy b\<bar>)
   \<and> (\<forall>i < length (findPath a b).
         manhattan ((a # findPath a b) ! i) (findPath a b ! i) = 1
       \<and> (int i < \<bar>vx a - vx b\<bar> \<longrightarrow> vy (findPath a b ! i) = vy ((a # findPath a b) ! i))
       \<and> (\<bar>vx a - vx b\<bar> \<le> int i \<longrightarrow>
            vx (findPath a b ! i) = vx b \<and> vx ((a # findPath a b) ! i) = vx b)
       \<and> manhattan (findPath a b ! i) b < manhattan ((a # findPath a b) ! i) b)
   \<and> distinct (findPath a b)
   \<and> (findPath a b = [] \<longleftrightarrow> a = b)
   \<and> (\<forall>c \<in> set (findPath a b). isSafeInteger (vx c) \<and> isSafeInteger (vy c))
   \<and> length (findPath a b) < 2 ^ 32"
proof -
  have len: "length (findPath a b) = nat (\<bar>vx a - vx b\<bar> + \<bar>vy a - vy b\<bar>)"
    by (simp add: findPath_length manhattan_def)
  have steps: "manhattan ((a # findPath a b) ! i) (findPath a b ! i) = 1
       \<and> (int i < \<bar>vx a - vx b\<bar> \<longrightarrow> vy (findPath a b ! i) = vy ((a # findPath a b) ! i))
       \<and> (\<bar>vx a - vx b\<bar> \<le> int i \<longrightarrow>
            vx (findPath a b ! i) = vx b \<and> vx ((a # findPath a b) ! i) = vx b)
       \<and> manhattan (findPath a b ! i) b < manhattan ((a # findPath a b) ! i) b"
    if i: "i < length (findPath a b)" for i
  proof -
    have m: "i < nat (manhattan a b)" using i by (simp add: findPath_length)
    show ?thesis
      unfolding findPath_prev [OF i] findPath_nth [OF i]
      using pathCell_step_facts [OF m] by blast
  qed
  have empty: "findPath a b = [] \<longleftrightarrow> a = b"
    using findPath_length [of a b] manhattan_zero [of a b] manhattan_nonneg [of a b]
    by (metis length_0_conv nat_0_iff order_antisym)
  have safe: "\<forall>c \<in> set (findPath a b). isSafeInteger (vx c) \<and> isSafeInteger (vy c)"
    using findPath_safe [OF assms(1-4)] by blast
  have "int (length (findPath a b)) < 2 ^ 32" using assms(5) unfolding len by simp
  then have fits: "length (findPath a b) < 2 ^ 32"
    by (metis of_nat_less_iff of_nat_numeral of_nat_power)
  show ?thesis
    using findPath_excludes_start len steps findPath_distinct empty safe fits by blast
qed

text \<open>
  The path from \<open>(0, 1)\<close> to \<open>(2, 0)\<close>, and a path of two cells that ends at the largest
  safe integer.
\<close>

theorem findPath_manhattan_path_witness:
  "findPath (Vec 0 1) (Vec 2 0) = [Vec 1 1, Vec 2 1, Vec 2 0]
   \<and> Vec 0 1 \<notin> set (findPath (Vec 0 1) (Vec 2 0))
   \<and> length (findPath (Vec 0 1) (Vec 2 0)) = 3
   \<and> distinct (findPath (Vec 0 1) (Vec 2 0))
   \<and> manhattan (findPath (Vec 0 1) (Vec 2 0) ! 2) (Vec 2 0)
       < manhattan ((Vec 0 1 # findPath (Vec 0 1) (Vec 2 0)) ! 2) (Vec 2 0)
   \<and> isSafeInteger (vx (findPath (Vec 0 1) (Vec 2 0) ! 2))
   \<and> length (findPath (Vec (2 ^ 53 - 3) 0) (Vec (2 ^ 53 - 1) 0)) = 2"
proof -
  let ?p = "findPath (Vec 0 1) (Vec 2 0)"
  have main: "Vec 0 1 \<notin> set ?p
     \<and> length ?p = nat (\<bar>vx (Vec 0 1) - vx (Vec 2 0)\<bar> + \<bar>vy (Vec 0 1) - vy (Vec 2 0)\<bar>)
     \<and> (\<forall>i < length ?p.
           manhattan ((Vec 0 1 # ?p) ! i) (?p ! i) = 1
         \<and> (int i < \<bar>vx (Vec 0 1) - vx (Vec 2 0)\<bar> \<longrightarrow> vy (?p ! i) = vy ((Vec 0 1 # ?p) ! i))
         \<and> (\<bar>vx (Vec 0 1) - vx (Vec 2 0)\<bar> \<le> int i \<longrightarrow>
              vx (?p ! i) = vx (Vec 2 0) \<and> vx ((Vec 0 1 # ?p) ! i) = vx (Vec 2 0))
         \<and> manhattan (?p ! i) (Vec 2 0) < manhattan ((Vec 0 1 # ?p) ! i) (Vec 2 0))
     \<and> distinct ?p
     \<and> (?p = [] \<longleftrightarrow> Vec 0 1 = Vec 2 0)
     \<and> (\<forall>c \<in> set ?p. isSafeInteger (vx c) \<and> isSafeInteger (vy c))
     \<and> length ?p < 2 ^ 32"
    by (rule findPath_manhattan_path) (simp_all add: isSafeInteger_def)
  have p: "?p = [Vec 1 1, Vec 2 1, Vec 2 0]"
    by (simp add: findPath_def findPathLoop.simps)
  have i: "(2::nat) < length ?p" by (simp add: p)
  have "\<forall>i < length ?p. manhattan (?p ! i) (Vec 2 0) < manhattan ((Vec 0 1 # ?p) ! i) (Vec 2 0)"
    using main by blast
  then have dec: "manhattan (?p ! 2) (Vec 2 0) < manhattan ((Vec 0 1 # ?p) ! 2) (Vec 2 0)"
    using i by blast
  have mem: "?p ! 2 \<in> set ?p" using i by (rule nth_mem)
  have "\<forall>c \<in> set ?p. isSafeInteger (vx c) \<and> isSafeInteger (vy c)" using main by blast
  then have safe: "isSafeInteger (vx (?p ! 2))" using mem by blast
  have basics: "Vec 0 1 \<notin> set ?p" "length ?p = 3" "distinct ?p"
    using main by simp_all
  let ?q = "findPath (Vec (2 ^ 53 - 3) 0) (Vec (2 ^ 53 - 1) 0)"
  have "length ?q = nat (\<bar>vx (Vec (2 ^ 53 - 3) 0) - vx (Vec (2 ^ 53 - 1) 0)\<bar>
                        + \<bar>vy (Vec (2 ^ 53 - 3) 0) - vy (Vec (2 ^ 53 - 1) 0)\<bar>)"
    using findPath_manhattan_path [of "Vec (2 ^ 53 - 3) 0" "Vec (2 ^ 53 - 1) 0"]
    by (simp add: isSafeInteger_def)
  then have big: "length ?q = 2" by simp
  show ?thesis using p basics dec safe big by blast
qed

subsection \<open>The bitwise operators on nibbles\<close>

lemma m0f: "(0x0f :: 32 word) = mask 4"
  by (simp add: mask_eq_exp_minus_1)

lemma mf0: "(0xf0 :: 32 word) = push_bit 4 (mask 4)"
  by (simp add: mask_eq_exp_minus_1)

lemma toInt32_sint [simp]: "toInt32 (sint w) = w"
  by (simp add: toInt32_def)

lemma toInt32_numeral [simp]: "toInt32 (numeral k) = numeral k" "toInt32 0 = 0" "toInt32 1 = 1"
  by (simp_all add: toInt32_def)

lemma bit_toInt32: "bit (toInt32 n) k \<longleftrightarrow> k < 32 \<and> bit n k"
  by (simp add: toInt32_def bit_simps)

lemma low_nibble_written: "jsAnd (jsOr (jsAnd old 0xf0) (jsAnd nibble 0x0f)) 0x0f = take_bit 4 nibble"
  unfolding jsAnd_def jsOr_def toInt32_sint toInt32_numeral m0f mf0
  by (rule bit_eqI) (auto simp: bit_simps bit_toInt32)

text \<open>
  A write through the masking branches always leaves a byte; a write through the shifting
  branches does so for a nibble in 0..15.
\<close>

lemma low_nibble_byte:
  "take_bit 8 (jsOr (jsAnd old 0xf0) (jsAnd nibble 0x0f)) = jsOr (jsAnd old 0xf0) (jsAnd nibble 0x0f)"
  unfolding jsAnd_def jsOr_def toInt32_sint toInt32_numeral m0f mf0
  by (rule bit_eqI) (auto simp: bit_simps bit_toInt32)

lemma high_nibble_keeps_low:
  "jsAnd (jsOr (jsAnd old 0x0f) (jsShl nibble 4)) 0x0f = jsAnd old 0x0f"
  unfolding jsAnd_def jsOr_def jsShl_def toInt32_sint toInt32_numeral m0f mf0
  by (rule bit_eqI) (auto simp: bit_simps bit_toInt32)

lemma high_nibble_written:
  "jsAnd (jsShr (jsOr (jsAnd old 0x0f) (jsShl nibble 4)) 4) 0x0f = take_bit 4 nibble"
  unfolding jsAnd_def jsOr_def jsShl_def jsShr_def toInt32_sint toInt32_numeral m0f mf0
  by (rule bit_eqI) (auto simp: bit_simps bit_toInt32)

lemma high_nibble_byte:
  "0 \<le> nibble \<Longrightarrow> nibble \<le> 15 \<Longrightarrow>
   take_bit 8 (jsOr (jsAnd old 0x0f) (jsShl nibble 4)) = jsOr (jsAnd old 0x0f) (jsShl nibble 4)"
proof -
  assume "0 \<le> nibble" "nibble \<le> 15"
  then have n: "nibble = take_bit 4 nibble" by (simp add: take_bit_int_eq_self)
  show ?thesis
    apply (subst (1 2) n)
    unfolding jsAnd_def jsOr_def jsShl_def toInt32_sint toInt32_numeral m0f mf0
    by (rule bit_eqI) (auto simp: bit_simps bit_toInt32)
qed

lemma take_bit_4_range: "0 \<le> (n :: int) \<Longrightarrow> n \<le> 15 \<Longrightarrow> take_bit 4 n = n"
  by (simp add: take_bit_int_eq_self)

subsection \<open>The wire frame\<close>

lemma andThen_simps [simp]:
  "andThen (Inl e) f = Inl e"
  "andThen (Inr v) f = f v"
  by (simp_all add: andThen_def)

lemma andThen_eq_Inr:
  "andThen r f = Inr w \<longleftrightarrow> (\<exists>v. r = Inr v \<and> f v = Inr w)"
  by (cases r) simp_all

lemma gridGet_in_rows:
  "y < length el \<Longrightarrow> gridGet el (int y) (int x) = Inr (rowCell (el ! y) x)"
  by (simp add: gridGet_def)

lemma bit_jsOr_jsShl_1:
  "k < 8 \<Longrightarrow> y < 8 \<Longrightarrow> bit (jsOr acc (jsShl 1 y)) k \<longleftrightarrow> bit acc k \<or> k = y"
  unfolding jsOr_def jsShl_def toInt32_sint toInt32_numeral
  by (auto simp: bit_simps bit_toInt32)

lemma colByteLoop_bits:
  assumes "\<forall>y \<in> set ys. y < length el \<and> y < 8"
  shows "\<exists>v. colByteLoop el x ys acc = Inr v
           \<and> (\<forall>k < 8. bit v k \<longleftrightarrow> bit acc k \<or> (k \<in> set ys \<and> rowCell (el ! k) x))"
  using assms
proof (induction ys arbitrary: acc)
  case Nil
  then show ?case by simp
next
  case (Cons y ys)
  have y: "y < length el" "y < 8" using Cons.prems by simp_all
  let ?acc = "if rowCell (el ! y) x then jsOr acc (jsShl 1 y) else acc"
  from Cons.IH [of ?acc] Cons.prems obtain v where
    v: "colByteLoop el x ys ?acc = Inr v"
    and bits: "\<forall>k < 8. bit v k \<longleftrightarrow> bit ?acc k \<or> (k \<in> set ys \<and> rowCell (el ! k) x)"
    by auto
  have "colByteLoop el x (y # ys) acc = Inr v"
    using y v by (simp add: gridGet_in_rows)
  moreover have "bit v k \<longleftrightarrow> bit acc k \<or> (k \<in> set (y # ys) \<and> rowCell (el ! k) x)"
    if "k < 8" for k
    using bits that y by (auto simp: bit_jsOr_jsShl_1)
  ultimately show ?case by blast
qed

lemma packColumn_result:
  assumes "gameSize_y \<le> length el"
  shows "\<exists>b. packColumn el x p = Inr (p[x + 1 := b])
           \<and> (\<forall>k. bit b k \<longleftrightarrow> k < 8 \<and> rowCell (el ! k) x)"
proof -
  have "\<forall>y \<in> set [0..<gameSize_y]. y < length el \<and> y < 8"
    using assms by (simp add: gameSize_y_def boardSize_def)
  from colByteLoop_bits [OF this, of x 0] obtain v where
    v: "colByteLoop el x [0..<gameSize_y] 0 = Inr v"
    and bits: "\<forall>k < 8. bit v k \<longleftrightarrow> (k \<in> set [0..<gameSize_y] \<and> rowCell (el ! k) x)"
    by auto
  have "bit (word_of_int v :: 8 word) k \<longleftrightarrow> k < 8 \<and> rowCell (el ! k) x" for k
    using bits by (auto simp: bit_simps gameSize_y_def boardSize_def)
  moreover have "packColumn el x p = Inr (p[x + 1 := word_of_int v])"
    using v by (simp add: packColumn_def)
  ultimately show ?thesis by blast
qed

lemma packColumns_result:
  assumes rows: "gameSize_y \<le> length el"
    and xs: "\<forall>x \<in> set xs. x + 1 < length p"
  shows "\<exists>q. foldE (packColumn el) xs p = Inr q \<and> length q = length p
           \<and> (\<forall>x \<in> set xs. \<forall>k. bit (q ! (x + 1)) k \<longleftrightarrow> k < 8 \<and> rowCell (el ! k) x)
           \<and> (\<forall>i. i \<notin> Suc ` set xs \<longrightarrow> q ! i = p ! i)"
  using xs
proof (induction xs arbitrary: p)
  case Nil
  then show ?case by simp
next
  case (Cons x xs)
  from packColumn_result [OF rows, of x p] obtain b where
    b: "packColumn el x p = Inr (p[x + 1 := b])"
    and bbits: "\<forall>k. bit b k \<longleftrightarrow> k < 8 \<and> rowCell (el ! k) x"
    by blast
  let ?p = "p[x + 1 := b]"
  have "\<forall>x \<in> set xs. x + 1 < length ?p" using Cons.prems by simp
  from Cons.IH [OF this] obtain q where
    q: "foldE (packColumn el) xs ?p = Inr q" and len: "length q = length ?p"
    and cols: "\<forall>x \<in> set xs. \<forall>k. bit (q ! (x + 1)) k \<longleftrightarrow> k < 8 \<and> rowCell (el ! k) x"
    and rest: "\<forall>i. i \<notin> Suc ` set xs \<longrightarrow> q ! i = ?p ! i"
    by blast
  have run: "foldE (packColumn el) (x # xs) p = Inr q"
    using b q by simp
  have head: "bit (q ! (x + 1)) k \<longleftrightarrow> k < 8 \<and> rowCell (el ! k) x" for k
  proof (cases "x \<in> set xs")
    case True
    then show ?thesis using cols by blast
  next
    case False
    then have "Suc x \<notin> Suc ` set xs" by auto
    then have "q ! (x + 1) = ?p ! (x + 1)" using rest by simp
    also have "\<dots> = b" using Cons.prems by simp
    finally show ?thesis using bbits by simp
  qed
  have others: "q ! i = p ! i" if "i \<notin> Suc ` set (x # xs)" for i
  proof -
    have "i \<notin> Suc ` set xs" and "i \<noteq> x + 1" using that by auto
    then show ?thesis using rest by simp
  qed
  show ?case
    using run len head cols others by auto
qed

lemma zero_fill_result:
  "length (fold (\<lambda>i p. p[i := 0]) is (p :: packet)) = length p
   \<and> (\<forall>i < length p. fold (\<lambda>i p. p[i := 0]) is p ! i = (if i \<in> set is then 0 else p ! i))"
  by (induction "is" arbitrary: p) (auto simp: nth_list_update)

lemma gameSize_values [simp]: "gameSize_x = 14" "gameSize_y = 8"
  by (simp_all add: gameSize_x_def gameSize_y_def boardSize_def)

lemma zero_fill_upt:
  "length (fold (\<lambda>i p. p[i := 0]) [a..<b] (p :: packet)) = length p"
  "i < length p \<Longrightarrow>
   fold (\<lambda>i p. p[i := 0]) [a..<b] p ! i = (if a \<le> i \<and> i < b then 0 else p ! i)"
  using zero_fill_result [of "[a..<b]" p] by (simp_all del: upt_rec_numeral)

lemma transmit_result:
  assumes rows: "gameSize_y \<le> length (electrodes g)"
  shows "\<exists>packet. transmit g = Inr packet \<and> length packet = 32
     \<and> packet ! 0 = word_of_int (specialElectrodesLeft g)
     \<and> packet ! 15 = word_of_int (specialElectrodesRight g)
     \<and> (\<forall>x < gameSize_x. \<forall>y. bit (packet ! (x + 1)) y
            \<longleftrightarrow> y < gameSize_y \<and> rowCell (electrodes g ! y) x)
     \<and> (\<forall>i. 16 \<le> i \<and> i < 32 \<longrightarrow> packet ! i = 0)"
proof -
  let ?p0 = "(replicate 32 0 :: packet)[0 := word_of_int (specialElectrodesLeft g)]"
  have "\<forall>x \<in> set [0..<gameSize_x]. x + 1 < length ?p0" by simp
  from packColumns_result [OF rows this] obtain q where
    q: "foldE (packColumn (electrodes g)) [0..<gameSize_x] ?p0 = Inr q"
    and len: "length q = 32"
    and cols: "\<forall>x \<in> set [0..<gameSize_x]. \<forall>k. bit (q ! (x + 1)) k
                 \<longleftrightarrow> k < 8 \<and> rowCell (electrodes g ! k) x"
    and rest: "\<forall>i. i \<notin> Suc ` set [0..<gameSize_x] \<longrightarrow> q ! i = ?p0 ! i"
    by auto
  let ?q1 = "q[15 := word_of_int (specialElectrodesRight g), 16 := 0, 17 := 0]"
  let ?r = "fold (\<lambda>i p. p[i := 0]) [18..<32] ?q1"
  have tr: "transmit g = Inr ?r"
    using q by (simp add: transmit_def Let_def del: upt_rec_numeral)
  have len1: "length ?q1 = 32" using len by simp
  have rlen: "length ?r = 32"
    using len1 by (simp only: zero_fill_upt)
  have rnth: "?r ! i = (if 18 \<le> i then 0 else ?q1 ! i)" if "i < 32" for i
  proof -
    have "i < length ?q1" using len1 that by simp
    from zero_fill_upt(2) [OF this, of 18 32] show ?thesis using that by simp
  qed
  have q0: "q ! 0 = word_of_int (specialElectrodesLeft g)"
    using rest by auto
  have b0: "?r ! 0 = word_of_int (specialElectrodesLeft g)"
    using rnth [of 0] q0 len by simp
  have b15: "?r ! 15 = word_of_int (specialElectrodesRight g)"
    using rnth [of 15] len by simp
  have bcol: "bit (?r ! (x + 1)) y \<longleftrightarrow> y < gameSize_y \<and> rowCell (electrodes g ! y) x"
    if "x < gameSize_x" for x y
  proof -
    have x: "x < 14" using that by simp
    then have "?r ! (x + 1) = q ! (x + 1)"
      using rnth [of "x + 1"] by simp
    then show ?thesis using cols that by simp
  qed
  have bz: "?r ! i = 0" if "16 \<le> i \<and> i < 32" for i
  proof (cases "18 \<le> i")
    case True
    then show ?thesis using rnth [of i] that by simp
  next
    case False
    then have "i = 16 \<or> i = 17" using that by arith
    then show ?thesis using rnth [of i] len by auto
  qed
  show ?thesis
    using tr rlen b0 b15 bcol bz by blast
qed

lemma byte_of_small: "0 \<le> v \<Longrightarrow> v \<le> 255 \<Longrightarrow> uint (word_of_int v :: 8 word) = v"
  by (simp add: uint_word_of_int)

text \<open>
  Claim C1. On every state whose electrode matrix has its eight rows, \<open>transmit\<close> builds
  a frame of 32 bytes: byte 0 is the left special-electrode value stored as a byte, byte 15
  the right one (the value itself whenever it lies in 0..255), byte \<open>x + 1\<close> has bit
  \<open>y\<close> set exactly when \<open>electrodes[y][x]\<close> is active, and bytes 16 to 31 are zero.
\<close>

theorem transmit_frame_layout:
  assumes "gameSize_y \<le> length (electrodes g)"
  shows "\<exists>packet. transmit g = Inr packet \<and> length packet = 32
     \<and> packet ! 0 = word_of_int (specialElectrodesLeft g)
     \<and> packet ! 15 = word_of_int (specialElectrodesRight g)
     \<and> (0 \<le> specialElectrodesLeft g \<and> specialElectrodesLeft g \<le> 255
          \<longrightarrow> uint (packet ! 0) = specialElectrodesLeft g)
     \<and> (0 \<le> specialElectrodesRight g \<and> specialElectrodesRight g \<le> 255
          \<longrightarrow> uint (packet ! 15) = specialElectrodesRight g)
     \<and> (\<forall>x < gameSize_x. \<forall>y. bit (packet ! (x + 1)) y
            \<longleftrightarrow> y < gameSize_y \<and> rowCell (electrodes g ! y) x)
     \<and> (\<forall>i. 16 \<le> i \<and> i < 32 \<longrightarrow> packet ! i = 0)"
proof -
  from transmit_result [OF assms] obtain packet where
    p: "transmit g = Inr packet" "length packet = 32"
       "packet ! 0 = word_of_int (specialElectrodesLeft g)"
       "packet ! 15 = word_of_int (specialElectrodesRight g)"
       "\<forall>x < gameSize_x. \<forall>y. bit (packet ! (x + 1)) y
            \<longleftrightarrow> y < gameSize_y \<and> rowCell (electrodes g ! y) x"
       "\<forall>i. 16 \<le> i \<and> i < 32 \<longrightarrow> packet ! i = 0"
    by blast
  have "0 \<le> specialElectrodesLeft g \<and> specialElectrodesLeft g \<le> 255
          \<longrightarrow> uint (packet ! 0) = specialElectrodesLeft g"
    using p(3) by (simp add: byte_of_small)
  moreover have "0 \<le> specialElectrodesRight g \<and> specialElectrodesRight g \<le> 255
          \<longrightarrow> uint (packet ! 15) = specialElectrodesRight g"
    using p(4) by (simp add: byte_of_small)
  ultimately show ?thesis using p by blast
qed

lemma bit_columnByte: "bit (columnByte el x) y \<longleftrightarrow> y < gameSize_y \<and> rowCell (el ! y) x"
  by (simp add: columnByte_def bit_horner_sum_bit_iff del: upt_rec_numeral) (auto simp: bit_simps)

lemma encodeFrame_nth:
  "length (encodeFrame l el r) = 32"
  "encodeFrame l el r ! 0 = word_of_int l"
  "x < 14 \<Longrightarrow> encodeFrame l el r ! Suc x = columnByte el x"
  "encodeFrame l el r ! 15 = word_of_int r"
  "16 \<le> i \<Longrightarrow> i < 32 \<Longrightarrow> encodeFrame l el r ! i = 0"
proof -
  let ?cols = "map (columnByte el) [0..<gameSize_x]"
  have e: "encodeFrame l el r = (word_of_int l # ?cols) @ word_of_int r # replicate 16 0"
    by (simp add: encodeFrame_def)
  have n: "length (word_of_int l # ?cols) = 15" by simp
  show "length (encodeFrame l el r) = 32" by (simp add: encodeFrame_def)
  show "encodeFrame l el r ! 0 = word_of_int l" by (simp add: encodeFrame_def)
  show "encodeFrame l el r ! Suc x = columnByte el x" if "x < 14"
    using that by (simp add: encodeFrame_def nth_append del: upt_rec_numeral)
  show "encodeFrame l el r ! 15 = word_of_int r"
    unfolding e using n by (metis nth_append_length)
  show "encodeFrame l el r ! i = 0" if "16 \<le> i" "i < 32"
  proof -
    have "\<not> i < length (word_of_int l # ?cols)" using that n by simp
    then have "encodeFrame l el r ! i
                 = (word_of_int r # replicate 16 0) ! (i - length (word_of_int l # ?cols))"
      unfolding e by (simp only: nth_append if_False)
    also have "\<dots> = (word_of_int r # replicate 16 0) ! (i - 15)"
      by (simp only: n)
    also have "\<dots> = replicate 16 0 ! (i - 16)"
      using that by (simp add: nth_Cons')
    also have "\<dots> = 0" using that by simp
    finally show ?thesis .
  qed
qed

lemma transmit_encode:
  assumes rows: "gameSize_y \<le> length (electrodes g)"
  shows "transmit g
         = Inr (encodeFrame (specialElectrodesLeft g) (electrodes g) (specialElectrodesRight g))"
proof -
  let ?e = "encodeFrame (specialElectrodesLeft g) (electrodes g) (specialElectrodesRight g)"
  from transmit_result [OF rows] obtain packet where
    p: "transmit g = Inr packet" and len: "length packet = 32"
    and b0: "packet ! 0 = word_of_int (specialElectrodesLeft g)"
    and b15: "packet ! 15 = word_of_int (specialElectrodesRight g)"
    and cols: "\<forall>x < gameSize_x. \<forall>y. bit (packet ! (x + 1)) y
            \<longleftrightarrow> y < gameSize_y \<and> rowCell (electrodes g ! y) x"
    and zs: "\<forall>i. 16 \<le> i \<and> i < 32 \<longrightarrow> packet ! i = 0"
    by blast
  have "packet ! i = ?e ! i" if i: "i < 32" for i
  proof -
    consider "i = 0" | "1 \<le> i \<and> i \<le> 14" | "i = 15" | "16 \<le> i" by arith
    then show ?thesis
    proof cases
      case 1
      then show ?thesis using b0 by (simp add: encodeFrame_nth)
    next
      case 2
      then obtain x where x: "i = x + 1" "x < 14"
        by (cases i) auto
      have "packet ! (x + 1) = columnByte (electrodes g) x"
        using cols x(2) by (intro bit_eqI) (simp add: bit_columnByte)
      then show ?thesis using x by (simp add: encodeFrame_nth)
    next
      case 3
      then show ?thesis using b15 by (simp add: encodeFrame_nth)
    next
      case 4
      then show ?thesis using zs i by (simp add: encodeFrame_nth)
    qed
  qed
  then have "packet = ?e" using len by (simp add: nth_equalityI encodeFrame_nth)
  then show ?thesis using p by simp
qed

lemma byte_low_nibble: "(word_of_int v :: 8 word) AND 0x0f = word_of_int (jsAnd v 0x0f)"
proof -
  have m: "(0x0f :: 8 word) = mask 4" by (simp add: mask_eq_exp_minus_1)
  show ?thesis
    unfolding jsAnd_def toInt32_numeral m0f m
    by (rule bit_eqI) (auto simp: bit_simps bit_toInt32)
qed

lemma byte_high_nibble: "drop_bit 4 (word_of_int v :: 8 word) = word_of_int (jsAnd (jsShr v 4) 0x0f)"
  unfolding jsAnd_def jsShr_def toInt32_sint toInt32_numeral m0f
  by (rule bit_eqI) (auto simp: bit_simps bit_toInt32)

subsection \<open>The dispense waveform\<close>

lemma isGrid_row: "isGrid h w g \<Longrightarrow> i < h \<Longrightarrow> length (g ! i) = w"
  by (simp add: isGrid_def list_all_length)

lemma gridSet_inside:
  assumes "isGrid h w g" "0 \<le> i" "i < int h" "0 \<le> j" "j < int w"
  shows "gridSet g i j v = Inr (g[nat i := (g ! nat i)[nat j := v]])"
    and "isGrid h w (g[nat i := (g ! nat i)[nat j := v]])"
proof -
  have i: "nat i < h" using assms by simp
  have len: "length g = h" using assms(1) by (simp add: isGrid_def)
  have row: "length (g ! nat i) = w" using assms(1) i by (rule isGrid_row)
  show "gridSet g i j v = Inr (g[nat i := (g ! nat i)[nat j := v]])"
    using assms len row by (simp add: gridSet_def)
  show "isGrid h w (g[nat i := (g ! nat i)[nat j := v]])"
    using assms(1) i row
    by (auto simp: isGrid_def list_all_length nth_list_update)
qed

lemma dispenseLocation_inside:
  "0 \<le> vy (getDispenseLocation r)" "vy (getDispenseLocation r) < int gameSize_y"
  "0 \<le> vx (getDispenseLocation r)" "vx (getDispenseLocation r) < int gameSize_x"
  by (cases r; simp add: getDispenseLocation_def)+

lemma reverseNibble_table:
  "map reverseNibble [0, 1, 2, 3, 4, 5, 6, 7, 8, 9, 10, 11, 12, 13, 14, 15]
   = [0, 8, 4, 12, 2, 10, 6, 14, 1, 9, 5, 13, 3, 11, 7, 15]"
  by (simp add: reverseNibble_def jsAnd_def jsOr_def jsShl_def jsShr_def)

lemma reverseNibble_bits:
  assumes "0 \<le> nibble" "nibble \<le> 15" "k < 4"
  shows "bit (reverseNibble nibble) k \<longleftrightarrow> bit nibble (3 - k)"
proof -
  have k: "k \<in> {0, 1, 2, 3}" using assms(3) by auto
  have "nibble \<in> {0..15}" using assms(1,2) by simp
  also have "{0..15} = {0, 1, 2, 3, 4, 5, 6, 7, 8, 9, 10, 11, 12, 13, 14, 15 :: int}"
    by (simp add: atLeastAtMost_def set_eq_iff) arith
  finally have n: "nibble \<in> {0, 1, 2, 3, 4, 5, 6, 7, 8, 9, 10, 11, 12, 13, 14, 15}" .
  show ?thesis
    using n k reverseNibble_table
    by (elim insertE emptyE; simp add: bit_iff_odd)
qed

lemma updateReservoirState_fields [simp]:
  "electrodes (updateReservoirState r n g) = electrodes g"
  "needFilling (updateReservoirState r n g) = needFilling g"
  "currentlyMoving (updateReservoirState r n g) = currentlyMoving g"
  "availableReservoirs (updateReservoirState r n g) = availableReservoirs g"
  "Game.more (updateReservoirState r n g) = Game.more g"
  by (simp_all add: updateReservoirState_def)

lemma isGrid_cellOn:
  "isGrid 8 14 el \<Longrightarrow> isGrid 8 14 (cellOn el (getDispenseLocation r))"
  unfolding cellOn_def
  using gridSet_inside(2) [of 8 14 el "vy (getDispenseLocation r)"
      "vx (getDispenseLocation r)" True] dispenseLocation_inside [of r]
  by simp

lemma gridSet_dispenseLocation:
  "isGrid 8 14 el \<Longrightarrow>
   gridSet el (vy (getDispenseLocation r)) (vx (getDispenseLocation r)) True
     = Inr (cellOn el (getDispenseLocation r))"
  unfolding cellOn_def
  using gridSet_inside(1) [of 8 14 el "vy (getDispenseLocation r)"
      "vx (getDispenseLocation r)" True] dispenseLocation_inside [of r]
  by simp

lemma transmit_grid:
  "isGrid 8 14 (electrodes g) \<Longrightarrow>
   transmit g = Inr (encodeFrame (specialElectrodesLeft g) (electrodes g) (specialElectrodesRight g))"
  by (rule transmit_encode) (simp add: isGrid_def)

lemma waveStep_grid:
  "isGrid 8 14 (electrodes g) \<Longrightarrow>
   isGrid 8 14 (electrodes (waveStep r i g))"
  by (simp add: waveStep_def Let_def isGrid_cellOn)

lemma dispenseLoop_unfold:
  assumes "isGrid 8 14 (electrodes g)"
  shows "dispenseLoop r (getDispenseLocation r) (i # is) g frames
         = dispenseLoop r (getDispenseLocation r) is (waveStep r i g)
             (frames @ [frameOf (waveStep r i g)])"
proof -
  have t: "transmit (waveStep r i g) = Inr (frameOf (waveStep r i g))"
    unfolding frameOf_def by (rule transmit_grid) (rule waveStep_grid [OF assms])
  show ?thesis
  proof (cases "i = dispenseDropFrame")
    case True
    then show ?thesis
      using assms t by (simp add: waveStep_def Let_def gridSet_dispenseLocation)
  next
    case False
    then show ?thesis
      using assms t by (simp add: waveStep_def Let_def)
  qed
qed

lemma dispenseLoop_run:
  assumes "isGrid 8 14 (electrodes g)"
  shows "dispenseLoop r (getDispenseLocation r) is g frames
         = Inr (fold (waveStep r) is g,
                frames @ map (\<lambda>k. frameOf (fold (waveStep r) (take (Suc k) is) g)) [0..<length is])"
  using assms
proof (induction "is" arbitrary: g frames)
  case Nil
  then show ?case by simp
next
  case (Cons i "is")
  have g1: "isGrid 8 14 (electrodes (waveStep r i g))"
    using Cons.prems by (rule waveStep_grid)
  have m: "map (\<lambda>k. frameOf (fold (waveStep r) (take (Suc k) (i # is)) g)) [0..<length (i # is)]
           = frameOf (waveStep r i g)
             # map (\<lambda>k. frameOf (fold (waveStep r) (take (Suc k) is) (waveStep r i g))) [0..<length is]"
    by (simp add: upt_conv_Cons map_Suc_upt [symmetric] del: upt_Suc)
  show ?case
    unfolding dispenseLoop_unfold [OF Cons.prems] Cons.IH [OF g1] m by simp
qed

lemma low_write_keeps_high_nibble:
  "jsAnd (jsShr (jsOr (jsAnd old 0xf0) (jsAnd nibble 0x0f)) 4) 0x0f = jsAnd (jsShr old 4) 0x0f"
  unfolding jsAnd_def jsOr_def jsShr_def toInt32_sint toInt32_numeral m0f mf0
  by (rule bit_eqI) (auto simp: bit_simps bit_toInt32)

lemma reservoirNibble_written:
  "reservoirNibble r (updateReservoirState r n g) = take_bit 4 n"
  by (cases r)
     (simp_all add: reservoirNibble_def updateReservoirState_def low_nibble_written
        high_nibble_written)

lemma reservoirNibble_others:
  "r' \<noteq> r \<Longrightarrow> reservoirNibble r' (updateReservoirState r n g) = reservoirNibble r' g"
  by (cases r; cases r')
     (simp_all add: reservoirNibble_def updateReservoirState_def low_write_keeps_high_nibble
        high_nibble_keeps_low)

lemma frameNibble_frameOf: "frameNibble r (frameOf g) = word_of_int (reservoirNibble r g)"
  by (cases r)
     (simp_all add: frameNibble_def frameOf_def reservoirNibble_def encodeFrame_nth
        byte_low_nibble byte_high_nibble)

lemma frameGrid_frameOf: "frameGrid (frameOf g) = map (columnByte (electrodes g)) [0..<gameSize_x]"
  by (simp add: frameGrid_def frameOf_def encodeFrame_def del: upt_rec_numeral)

lemma reverseNibble_sequence:
  "reverseNibble 8 = 1" "reverseNibble 12 = 3" "reverseNibble 7 = 14"
  "reverseNibble 1 = 8" "reverseNibble 10 = 5"
  by (simp_all add: reverseNibble_def jsAnd_def jsOr_def jsShl_def jsShr_def)

lemma cellOn_idem: "cellOn (cellOn el c) c = cellOn el c"
  by (cases "nat (vy c) < length el") (simp_all add: cellOn_def list_update_beyond)

lemma waveStep_fields:
  "electrodes (waveStep r i g)
     = (if i = dispenseDropFrame then cellOn (electrodes g) (getDispenseLocation r)
        else electrodes g)"
  "needFilling (waveStep r i g) = needFilling g"
  "currentlyMoving (waveStep r i g) = currentlyMoving g"
  "availableReservoirs (waveStep r i g) = availableReservoirs g"
  "Game.more (waveStep r i g) = Game.more g"
  "reservoirNibble r (waveStep r i g) = take_bit 4 (waveNibble r (dispenseSequence ! i))"
  "r' \<noteq> r \<Longrightarrow> reservoirNibble r' (waveStep r i g) = reservoirNibble r' g"
proof -
  let ?g1 = "updateReservoirState r (waveNibble r (dispenseSequence ! i)) g"
  have w: "waveStep r i g
           = (if i = dispenseDropFrame
              then ?g1\<lparr>electrodes := cellOn (electrodes ?g1) (getDispenseLocation r)\<rparr>
              else ?g1)"
    by (simp add: waveStep_def waveNibble_def Let_def)
  have n: "reservoirNibble q (h\<lparr>electrodes := e\<rparr>) = reservoirNibble q h" for q e
    and h :: "'a Game_scheme"
    by (cases q) (simp_all add: reservoirNibble_def)
  show "electrodes (waveStep r i g)
     = (if i = dispenseDropFrame then cellOn (electrodes g) (getDispenseLocation r)
        else electrodes g)"
    "needFilling (waveStep r i g) = needFilling g"
    "currentlyMoving (waveStep r i g) = currentlyMoving g"
    "availableReservoirs (waveStep r i g) = availableReservoirs g"
    "Game.more (waveStep r i g) = Game.more g"
    by (simp_all add: w)
  show "reservoirNibble r (waveStep r i g) = take_bit 4 (waveNibble r (dispenseSequence ! i))"
    by (simp add: w n reservoirNibble_written)
  show "reservoirNibble r' (waveStep r i g) = reservoirNibble r' g" if "r' \<noteq> r"
    using that by (simp add: w n reservoirNibble_others)
qed

lemma fold_waveStep_fields:
  "electrodes (fold (waveStep r) is g)
     = (if dispenseDropFrame \<in> set is then cellOn (electrodes g) (getDispenseLocation r)
        else electrodes g)"
  "needFilling (fold (waveStep r) is g) = needFilling g"
  "currentlyMoving (fold (waveStep r) is g) = currentlyMoving g"
  "availableReservoirs (fold (waveStep r) is g) = availableReservoirs g"
  "Game.more (fold (waveStep r) is g) = Game.more g"
  "r' \<noteq> r \<Longrightarrow> reservoirNibble r' (fold (waveStep r) is g) = reservoirNibble r' g"
  by (induction "is" arbitrary: g; simp add: waveStep_fields cellOn_idem)+

lemma fold_waveStep_grid:
  "isGrid 8 14 (electrodes g) \<Longrightarrow> isGrid 8 14 (electrodes (fold (waveStep r) is g))"
  by (simp add: fold_waveStep_fields isGrid_cellOn)

lemma wave_frame:
  assumes "k < n"
  shows "frameNibble r (frameOf (fold (waveStep r) (take (Suc k) [0..<n]) g))
           = word_of_int (take_bit 4 (waveNibble r (dispenseSequence ! k)))"
    and "frameGrid (frameOf (fold (waveStep r) (take (Suc k) [0..<n]) g))
           = map (columnByte (if dispenseDropFrame \<le> k
                              then cellOn (electrodes g) (getDispenseLocation r)
                              else electrodes g)) [0..<gameSize_x]"
proof -
  have t: "take (Suc k) [0..<n] = [0..<k] @ [k]"
    using assms by (simp add: take_upt)
  show "frameNibble r (frameOf (fold (waveStep r) (take (Suc k) [0..<n]) g))
           = word_of_int (take_bit 4 (waveNibble r (dispenseSequence ! k)))"
    by (simp add: t frameNibble_frameOf waveStep_fields)
  have "dispenseDropFrame \<in> set ([0..<k] @ [k]) \<longleftrightarrow> dispenseDropFrame \<le> k"
    by auto
  then show "frameGrid (frameOf (fold (waveStep r) (take (Suc k) [0..<n]) g))
           = map (columnByte (if dispenseDropFrame \<le> k
                              then cellOn (electrodes g) (getDispenseLocation r)
                              else electrodes g)) [0..<gameSize_x]"
    unfolding t frameGrid_frameOf by (simp only: fold_waveStep_fields(1))
qed

lemma dispense_run:
  assumes grid: "isGrid 8 14 (electrodes g)"
  shows "dispense r g =
     Inr (updateReservoirState r (waveNibble r 8)
            (fold (waveStep r) [0..<7] (updateReservoirState r 0 g)),
          frameOf (updateReservoirState r 0 g)
          # map (\<lambda>k. frameOf (fold (waveStep r) (take (Suc k) [0..<7])
                                  (updateReservoirState r 0 g))) [0..<7]
          @ [frameOf (updateReservoirState r (waveNibble r 8)
                        (fold (waveStep r) [0..<7] (updateReservoirState r 0 g)))],
          getDispenseLocation r)"
proof -
  let ?g0 = "updateReservoirState r 0 g"
  let ?g7 = "fold (waveStep r) [0..<7] ?g0"
  let ?g8 = "updateReservoirState r (waveNibble r 8) ?g7"
  have g0: "isGrid 8 14 (electrodes ?g0)" using grid by simp
  have g7: "isGrid 8 14 (electrodes ?g7)" using g0 by (rule fold_waveStep_grid)
  have g8: "isGrid 8 14 (electrodes ?g8)" using g7 by simp
  have t0: "transmit ?g0 = Inr (frameOf ?g0)"
    unfolding frameOf_def using g0 by (rule transmit_grid)
  have t8: "transmit ?g8 = Inr (frameOf ?g8)"
    unfolding frameOf_def using g8 by (rule transmit_grid)
  have "length dispenseSequence = 7" by (simp add: dispenseSequence_def)
  then have len: "[0..<length dispenseSequence] = [0..<7]" by (simp only:)
  have loop: "dispenseLoop r (getDispenseLocation r) [0..<7] ?g0 [frameOf ?g0]
        = Inr (?g7, [frameOf ?g0]
                 @ map (\<lambda>k. frameOf (fold (waveStep r) (take (Suc k) [0..<7]) ?g0)) [0..<7])"
    using dispenseLoop_run [OF g0, of r "[0..<7]" "[frameOf ?g0]"]
    by (simp del: upt_rec_numeral)
  show ?thesis
    unfolding dispense_def Let_def len
    by (simp add: t0 loop t8 waveNibble_def [symmetric] del: upt_rec_numeral)
qed

lemma wave_nibbles:
  "map (\<lambda>k. frameNibble r (frameOf (fold (waveStep r) (take (Suc k) [0..<7]) g))) [0..<7]
   = map (\<lambda>k. word_of_int (take_bit 4 (waveNibble r (dispenseSequence ! k)))) [0..<7]"
proof (rule map_cong [OF refl])
  fix k assume "k \<in> set [0..<7]"
  then have "k < 7" by (simp del: upt_rec_numeral)
  then show "frameNibble r (frameOf (fold (waveStep r) (take (Suc k) [0..<7]) g))
        = word_of_int (take_bit 4 (waveNibble r (dispenseSequence ! k)))"
    by (rule wave_frame(1))
qed

lemma wave_grids:
  "map (\<lambda>k. frameGrid (frameOf (fold (waveStep r) (take (Suc k) [0..<7]) g))) [0..<7]
   = map (\<lambda>k. map (columnByte (if dispenseDropFrame \<le> k
                              then cellOn (electrodes g) (getDispenseLocation r)
                              else electrodes g)) [0..<gameSize_x]) [0..<7]"
proof (rule map_cong [OF refl])
  fix k assume "k \<in> set [0..<7]"
  then have "k < 7" by (simp del: upt_rec_numeral)
  then show "frameGrid (frameOf (fold (waveStep r) (take (Suc k) [0..<7]) g))
        = map (columnByte (if dispenseDropFrame \<le> k
                              then cellOn (electrodes g) (getDispenseLocation r)
                              else electrodes g)) [0..<gameSize_x]"
    by (rule wave_frame(2))
qed

lemma upt_7: "[0..<7] = [0, 1, 2, 3, 4, 5, 6 :: nat]"
  by (simp add: upt_rec)

lemma nibble_lists:
  "map (\<lambda>k. (word_of_int (take_bit 4 (waveNibble r (dispenseSequence ! k))) :: 8 word)) [0..<7]
   = map word_of_int (map (waveNibble r) dispenseSequence)"
  "(map word_of_int (0 # map (waveNibble r) (dispenseSequence @ [0b1000])) :: 8 word list)
   = (if r = BL \<or> r = BR then [0, 1, 3, 14, 8, 3, 5, 5, 1] else [0, 8, 12, 7, 1, 12, 10, 10, 8])"
  "(word_of_int (take_bit 4 (waveNibble r 8)) :: 8 word) = word_of_int (waveNibble r 8)"
  by (simp_all add: upt_7 waveNibble_def dispenseSequence_def reverseNibble_sequence)

text \<open>
  Claim C2. On a well-formed matrix \<open>dispense\<close> returns the dispense-target cell and
  transmits nine frames. The reservoir's nibble in them is \<open>0000\<close>, then the seven
  nibbles of \<open>dispenseSequence\<close>, then the default \<open>1000\<close>, each passed through
  \<open>reverseNibble\<close> for \<open>BL\<close> and \<open>BR\<close> and unchanged for \<open>TL\<close> and \<open>TR\<close>. The
  target cell is off the grid part of the first four frames (unless it was on before) and
  on from the frame of step index 3. \<open>reverseNibble\<close> swaps bit \<open>k\<close> with bit
  \<open>3 - k\<close>.
\<close>

theorem dispense_waveform:
  assumes "isGrid gameSize_y gameSize_x (electrodes g)"
  shows "\<exists>g' frames.
      dispense r g = Inr (g', frames, getDispenseLocation r)
    \<and> map (frameNibble r) frames
        = map word_of_int (0 # map (waveNibble r) (dispenseSequence @ [0b1000]))
    \<and> map (frameNibble r) frames
        = (if r = BL \<or> r = BR then [0, 1, 3, 14, 8, 3, 5, 5, 1]
           else [0b0000, 0b1000, 0b1100, 0b0111, 0b0001, 0b1100, 0b1010, 0b1010, 0b1000])
    \<and> map frameGrid frames
        = replicate 4 (map (columnByte (electrodes g)) [0..<gameSize_x])
          @ replicate 5 (map (columnByte (cellOn (electrodes g) (getDispenseLocation r)))
                           [0..<gameSize_x])
    \<and> electrodes g' = cellOn (electrodes g) (getDispenseLocation r)
    \<and> (\<forall>n k. 0 \<le> n \<and> n \<le> 15 \<and> k < 4 \<longrightarrow> (bit (reverseNibble n) k \<longleftrightarrow> bit n (3 - k)))"
proof -
  have grid: "isGrid 8 14 (electrodes g)" using assms by simp
  let ?g0 = "updateReservoirState r 0 g"
  let ?g7 = "fold (waveStep r) [0..<7] ?g0"
  let ?g8 = "updateReservoirState r (waveNibble r 8) ?g7"
  let ?mid = "map (\<lambda>k. frameOf (fold (waveStep r) (take (Suc k) [0..<7]) ?g0)) [0..<7]"
  let ?frames = "frameOf ?g0 # ?mid @ [frameOf ?g8]"
  let ?on = "cellOn (electrodes g) (getDispenseLocation r)"
  have run: "dispense r g = Inr (?g8, ?frames, getDispenseLocation r)"
    using grid by (rule dispense_run)
  have el8: "electrodes ?g8 = ?on"
    by (simp add: fold_waveStep_fields dispenseDropFrame_def)
  have nib: "map (frameNibble r) ?frames
        = map word_of_int (0 # map (waveNibble r) (dispenseSequence @ [0b1000]))"
  proof -
    have "map (frameNibble r) ?frames
        = frameNibble r (frameOf ?g0)
          # map (\<lambda>k. frameNibble r (frameOf (fold (waveStep r) (take (Suc k) [0..<7]) ?g0)))
              [0..<7]
          @ [frameNibble r (frameOf ?g8)]"
      by (simp add: comp_def del: upt_rec_numeral)
    also have "\<dots> = 0 # map word_of_int (map (waveNibble r) dispenseSequence)
                        @ [word_of_int (waveNibble r 8)]"
      unfolding wave_nibbles nibble_lists(1)
      by (simp add: frameNibble_frameOf reservoirNibble_written nibble_lists(3)
            del: upt_rec_numeral)
    finally show ?thesis by simp
  qed
  have grids: "map frameGrid ?frames
        = replicate 4 (map (columnByte (electrodes g)) [0..<gameSize_x])
          @ replicate 5 (map (columnByte ?on) [0..<gameSize_x])"
  proof -
    have "map frameGrid ?frames
        = frameGrid (frameOf ?g0)
          # map (\<lambda>k. frameGrid (frameOf (fold (waveStep r) (take (Suc k) [0..<7]) ?g0)))
              [0..<7]
          @ [frameGrid (frameOf ?g8)]"
      by (simp add: comp_def del: upt_rec_numeral)
    also have "\<dots> = map (columnByte (electrodes g)) [0..<gameSize_x]
          # map (\<lambda>k. map (columnByte (if dispenseDropFrame \<le> k then ?on else electrodes g))
                         [0..<gameSize_x]) [0..<7]
          @ [map (columnByte ?on) [0..<gameSize_x]]"
    proof -
      have a: "frameGrid (frameOf ?g0) = map (columnByte (electrodes g)) [0..<gameSize_x]"
        by (simp only: frameGrid_frameOf updateReservoirState_fields)
      have b: "frameGrid (frameOf ?g8) = map (columnByte ?on) [0..<gameSize_x]"
        by (simp only: frameGrid_frameOf el8)
      have c: "map (\<lambda>k. frameGrid (frameOf (fold (waveStep r) (take (Suc k) [0..<7]) ?g0)))
                 [0..<7]
               = map (\<lambda>k. map (columnByte (if dispenseDropFrame \<le> k then ?on
                                               else electrodes g)) [0..<gameSize_x]) [0..<7]"
        using wave_grids [of r ?g0] by (simp only: updateReservoirState_fields)
      show ?thesis by (simp only: a b c)
    qed
    also have "map (\<lambda>k. map (columnByte (if dispenseDropFrame \<le> k then ?on else electrodes g))
                         [0..<gameSize_x]) [0..<7]
          = replicate 3 (map (columnByte (electrodes g)) [0..<gameSize_x])
            @ replicate 4 (map (columnByte ?on) [0..<gameSize_x])"
    proof -
      have s: "[0..<7] = [0, 1, 2] @ [3, 4, 5, 6 :: nat]" by (simp add: upt_rec)
      show ?thesis
        unfolding s map_append
        by (simp add: dispenseDropFrame_def numeral_eq_Suc del: upt_rec_numeral)
    qed
    finally show ?thesis
      by (simp add: numeral_eq_Suc del: upt_rec_numeral)
  qed
  have rev: "\<forall>n k. 0 \<le> n \<and> n \<le> 15 \<and> k < 4 \<longrightarrow> (bit (reverseNibble n) k \<longleftrightarrow> bit n (3 - k))"
    using reverseNibble_bits by blast
  have nib2: "map (frameNibble r) ?frames
        = (if r = BL \<or> r = BR then [0, 1, 3, 14, 8, 3, 5, 5, 1]
           else [0b0000, 0b1000, 0b1100, 0b0111, 0b0001, 0b1100, 0b1010, 0b1010, 0b1000])"
    using nib nibble_lists(2) [of r] by (simp only:)
  have grids2: "map frameGrid ?frames
        = replicate 4 (map (columnByte (electrodes g)) [0..<gameSize_x])
          @ replicate 5 (map (columnByte (cellOn (electrodes g) (getDispenseLocation r)))
                           [0..<gameSize_x])"
    using grids by (simp only:)
  from run nib nib2 grids2 el8 rev show ?thesis by blast
qed

lemma exampleGame_grid: "isGrid gameSize_y gameSize_x (electrodes exampleGame)"
  by (simp add: exampleGame_def isGrid_def list_all_length nth_list_update)

theorem transmit_frame_layout_witness:
  "\<exists>packet. transmit exampleGame = Inr packet \<and> length packet = 32
     \<and> packet ! 0 = 24 \<and> uint (packet ! 0) = 24 \<and> packet ! 15 = 24
     \<and> bit (packet ! 1) 1 \<and> \<not> bit (packet ! 1) 0 \<and> packet ! 16 = 0"
proof -
  have rows: "gameSize_y \<le> length (electrodes exampleGame)"
    by (simp add: exampleGame_def)
  from transmit_frame_layout [OF rows] obtain packet where
    p: "transmit exampleGame = Inr packet" "length packet = 32"
       "packet ! 0 = word_of_int (specialElectrodesLeft exampleGame)"
       "packet ! 15 = word_of_int (specialElectrodesRight exampleGame)"
       "0 \<le> specialElectrodesLeft exampleGame \<and> specialElectrodesLeft exampleGame \<le> 255
          \<longrightarrow> uint (packet ! 0) = specialElectrodesLeft exampleGame"
    and cols: "\<forall>x < gameSize_x. \<forall>y. bit (packet ! (x + 1)) y
            \<longleftrightarrow> y < gameSize_y \<and> rowCell (electrodes exampleGame ! y) x"
    and zs: "\<forall>i. 16 \<le> i \<and> i < 32 \<longrightarrow> packet ! i = 0"
    by blast
  have c1: "bit (packet ! 1) 1" using cols [rule_format, of 0 1]
    by (simp add: exampleGame_def rowCell_def)
  have c0: "\<not> bit (packet ! 1) 0" using cols [rule_format, of 0 0]
    by (simp add: exampleGame_def rowCell_def)
  have z: "packet ! 16 = 0" using zs by simp
  show ?thesis
    using p c1 c0 z by (simp add: exampleGame_def)
qed

theorem dispense_waveform_witness:
  "\<exists>g' frames. dispense BL exampleGame = Inr (g', frames, Vec 0 6)
     \<and> map (frameNibble BL) frames = [0, 1, 3, 14, 8, 3, 5, 5, 1]
     \<and> electrodes g' = cellOn (electrodes exampleGame) (Vec 0 6)"
proof -
  have loc: "getDispenseLocation BL = Vec 0 6"
    by (simp add: getDispenseLocation_def)
  show ?thesis
    using dispense_waveform [OF exampleGame_grid, of BL]
    by (simp add: loc) (elim exE conjE, intro exI conjI, assumption+)
qed

text \<open>
  Claim C10. For a nibble in 0..15, \<open>updateReservoirState\<close> makes the reservoir's own
  half-byte equal to the nibble and leaves the half-bytes of the three other reservoirs,
  the special byte of the other side, the electrode matrix, the fill queue and every other
  field as they were.
\<close>

theorem updateReservoirState_frame:
  assumes "0 \<le> nibble" "nibble \<le> 15"
  shows "reservoirNibble r (updateReservoirState r nibble g) = nibble
       \<and> (\<forall>r'. r' \<noteq> r \<longrightarrow>
             reservoirNibble r' (updateReservoirState r nibble g) = reservoirNibble r' g)
       \<and> (r = TL \<or> r = BL \<longrightarrow>
             specialElectrodesRight (updateReservoirState r nibble g) = specialElectrodesRight g)
       \<and> (r = TR \<or> r = BR \<longrightarrow>
             specialElectrodesLeft (updateReservoirState r nibble g) = specialElectrodesLeft g)
       \<and> electrodes (updateReservoirState r nibble g) = electrodes g
       \<and> needFilling (updateReservoirState r nibble g) = needFilling g
       \<and> currentlyMoving (updateReservoirState r nibble g) = currentlyMoving g
       \<and> availableReservoirs (updateReservoirState r nibble g) = availableReservoirs g
       \<and> Game.more (updateReservoirState r nibble g) = Game.more g"
proof -
  have own: "reservoirNibble r (updateReservoirState r nibble g) = nibble"
    using assms by (simp add: reservoirNibble_written take_bit_4_range)
  have others: "\<forall>r'. r' \<noteq> r \<longrightarrow>
             reservoirNibble r' (updateReservoirState r nibble g) = reservoirNibble r' g"
    by (simp add: reservoirNibble_others)
  have right: "r = TL \<or> r = BL \<longrightarrow>
             specialElectrodesRight (updateReservoirState r nibble g) = specialElectrodesRight g"
    by (auto simp: updateReservoirState_def)
  have left: "r = TR \<or> r = BR \<longrightarrow>
             specialElectrodesLeft (updateReservoirState r nibble g) = specialElectrodesLeft g"
    by (auto simp: updateReservoirState_def)
  show ?thesis
    using own others right left by simp
qed

theorem updateReservoirState_frame_witness:
  "reservoirNibble BL (updateReservoirState BL 0b0011 exampleGame) = 3
   \<and> reservoirNibble TL (updateReservoirState BL 0b0011 exampleGame) = 8
   \<and> specialElectrodesLeft (updateReservoirState BL 0b0011 exampleGame) = 0b00111000
   \<and> specialElectrodesRight (updateReservoirState BL 0b0011 exampleGame) = 0b00011000
   \<and> electrodes (updateReservoirState BL 0b0011 exampleGame) = electrodes exampleGame
   \<and> needFilling (updateReservoirState BL 0b0011 exampleGame) = needFilling exampleGame"
proof -
  have n: "(0::int) \<le> 0b0011" "(0b0011::int) \<le> 15" by simp_all
  have tl: "reservoirNibble TL exampleGame = 8"
    by (simp add: reservoirNibble_def exampleGame_def jsAnd_def)
  have l: "specialElectrodesLeft (updateReservoirState BL 0b0011 exampleGame) = 0b00111000"
    by (simp add: updateReservoirState_def exampleGame_def jsAnd_def jsOr_def jsShl_def)
  have r: "specialElectrodesRight exampleGame = 0b00011000"
    by (simp add: exampleGame_def)
  show ?thesis
    using updateReservoirState_frame [OF n, of BL exampleGame] tl l r by simp
qed

text \<open>
  Claim C4. The branches for \<open>BL\<close> and \<open>BR\<close> shift the argument without masking it:
  with the argument 16 the stored left value becomes 256, outside 0..255, where the
  branch for \<open>TL\<close> stores the masked nibble 0.
\<close>

theorem updateReservoirState_upper_unmasked:
  "specialElectrodesLeft (updateReservoirState BL 16 (exampleGame\<lparr>specialElectrodesLeft := 0\<rparr>)) = 256
   \<and> specialElectrodesLeft (updateReservoirState TL 16 (exampleGame\<lparr>specialElectrodesLeft := 0\<rparr>)) = 0"
  by (simp add: updateReservoirState_def jsAnd_def jsOr_def jsShl_def)

subsection \<open>Reservoir selection\<close>

lemma closestLoop_first_minimum:
  "\<exists>pre r post. c # rs = pre @ r # post
      \<and> closestLoop e rs (Some c) (Some (distance e (getDispenseLocation c))) = Some r
      \<and> (\<forall>p \<in> set pre. distance e (getDispenseLocation r) < distance e (getDispenseLocation p))
      \<and> (\<forall>p \<in> set post. distance e (getDispenseLocation r) \<le> distance e (getDispenseLocation p))"
proof (induction rs arbitrary: c)
  case Nil
  have "[c] = [] @ c # []" by simp
  then show ?case by fastforce
next
  case (Cons x xs)
  let ?d = "\<lambda>r. distance e (getDispenseLocation r)"
  show ?case
  proof (cases "?d x < ?d c")
    case True
    from Cons.IH [of x] obtain pre r post where
      dec: "x # xs = pre @ r # post"
      and res: "closestLoop e xs (Some x) (Some (?d x)) = Some r"
      and before: "\<forall>p \<in> set pre. ?d r < ?d p"
      and after: "\<forall>p \<in> set post. ?d r \<le> ?d p"
      by blast
    have "x \<in> set (pre @ r # post)" using dec by (metis list.set_intros(1))
    then have "?d r \<le> ?d x" using before after by auto
    then have rc: "?d r < ?d c" using True by simp
    have "c # x # xs = (c # pre) @ r # post" using dec by simp
    moreover have "closestLoop e (x # xs) (Some c) (Some (?d c)) = Some r"
      using True res by (simp add: Let_def)
    moreover have "\<forall>p \<in> set (c # pre). ?d r < ?d p" using before rc by simp
    ultimately show ?thesis using after by blast
  next
    case False
    from Cons.IH [of c] obtain pre r post where
      dec: "c # xs = pre @ r # post"
      and res: "closestLoop e xs (Some c) (Some (?d c)) = Some r"
      and before: "\<forall>p \<in> set pre. ?d r < ?d p"
      and after: "\<forall>p \<in> set post. ?d r \<le> ?d p"
      by blast
    have run: "closestLoop e (x # xs) (Some c) (Some (?d c)) = Some r"
      using False res by (simp add: Let_def)
    show ?thesis
    proof (cases pre)
      case Nil
      then have "r = c" "post = xs" using dec by simp_all
      then have "c # x # xs = [] @ r # (x # post)" by simp
      moreover have "\<forall>p \<in> set (x # post). ?d r \<le> ?d p"
        using after False \<open>r = c\<close> by simp
      ultimately show ?thesis using run by (metis empty_iff list.set(1))
    next
      case (Cons p pre')
      then have pc: "p = c" and rest: "xs = pre' @ r # post" using dec by simp_all
      have "?d r < ?d c" using before Cons pc by simp
      then have "?d r < ?d x" using False by simp
      then have "\<forall>p \<in> set (c # x # pre'). ?d r < ?d p"
        using before Cons pc by simp
      moreover have "c # x # xs = (c # x # pre') @ r # post" using rest by simp
      ultimately show ?thesis using run after by blast
    qed
  qed
qed

lemma closestLoop_start:
  "closestLoop e (c # rs) None None
     = closestLoop e rs (Some c) (Some (distance e (getDispenseLocation c)))"
  by (simp add: Let_def)

text \<open>
  Claim C7. With a cell \<open>e\<close> of the board at the head of the queue and no droplet in
  transit, \<open>fillTick\<close> on an empty availability list changes nothing and transmits
  nothing. Otherwise it dispenses from a reservoir \<open>r\<close> of the list such that every
  reservoir before \<open>r\<close> in the list is strictly farther and every reservoir after \<open>r\<close> is
  at least as far, and records the dispensed cell as the droplet in transit. Far and near are
  by the Euclidean distance \<open>d\<close> from \<open>e\<close> to the reservoir's dispense-target cell, the
  square root of the sum of the squared coordinate differences.
\<close>

theorem fillTick_selects_closest:
  fixes g :: "'a Game_scheme" and e :: Vec
  defines "d \<equiv> \<lambda>t. sqrt (real_of_int ((vx e - vx t) ^ 2) + real_of_int ((vy e - vy t) ^ 2))"
  assumes "needFilling g = e # q" "currentlyMoving g = None" "inElectrodes e"
  shows "(availableReservoirs g = [] \<longrightarrow> fillTick g = Inr (g, []))
       \<and> (availableReservoirs g \<noteq> [] \<longrightarrow>
            (\<exists>pre r post. availableReservoirs g = pre @ r # post
               \<and> (\<forall>p \<in> set pre. d (getDispenseLocation r) < d (getDispenseLocation p))
               \<and> (\<forall>p \<in> set post. d (getDispenseLocation r) \<le> d (getDispenseLocation p))
               \<and> fillTick g
                   = andThen (dispense r g)
                       (\<lambda>(g', frames, dropLocation).
                          Inr (g'\<lparr>currentlyMoving := Some dropLocation\<rparr>, frames))))"
proof (intro conjI impI)
  assume "availableReservoirs g = []"
  then show "fillTick g = Inr (g, [])"
    using assms by (simp add: fillTick_def)
next
  assume "availableReservoirs g \<noteq> []"
  then obtain c rs where av: "availableReservoirs g = c # rs"
    by (cases "availableReservoirs g") auto
  have d: "distance e t = d t" for t
    by (simp add: d_def distance_def)
  from closestLoop_first_minimum [of c rs e] obtain pre r post where
    dec: "c # rs = pre @ r # post"
    and res: "closestLoop e rs (Some c) (Some (distance e (getDispenseLocation c))) = Some r"
    and before: "\<forall>p \<in> set pre. d (getDispenseLocation r) < d (getDispenseLocation p)"
    and after: "\<forall>p \<in> set post. d (getDispenseLocation r) \<le> d (getDispenseLocation p)"
    unfolding d by blast
  have sel: "closestLoop e (availableReservoirs g) None None = Some r"
    using av res by (simp only: closestLoop_start)
  have "fillTick g
          = andThen (dispense r g)
              (\<lambda>(g', frames, dropLocation).
                 Inr (g'\<lparr>currentlyMoving := Some dropLocation\<rparr>, frames))"
    using assms(2,3) by (simp add: fillTick_def sel)
  then show "\<exists>pre r post. availableReservoirs g = pre @ r # post
               \<and> (\<forall>p \<in> set pre. d (getDispenseLocation r) < d (getDispenseLocation p))
               \<and> (\<forall>p \<in> set post. d (getDispenseLocation r) \<le> d (getDispenseLocation p))
               \<and> fillTick g
                   = andThen (dispense r g)
                       (\<lambda>(g', frames, dropLocation).
                          Inr (g'\<lparr>currentlyMoving := Some dropLocation\<rparr>, frames))"
    using av dec before after by metis
qed

lemma tie_targets:
  "getDispenseLocation BL = Vec 0 6"
  "getDispenseLocation TL = Vec 0 1"
  "getDispenseLocation TR = Vec 12 1"
  by (simp_all add: getDispenseLocation_def)

lemma sqrt_61_above_6: "\<not> sqrt 61 \<le> (6::real)"
proof
  assume le: "sqrt 61 \<le> (6::real)"
  have "sqrt 36 = (6::real)" using real_sqrt_abs [of 6] by simp
  then have "sqrt 61 \<le> sqrt (36::real)" using le by (simp only:)
  then have "(61::real) \<le> 36" by (simp only: real_sqrt_le_iff)
  then show False by simp
qed

theorem fillTick_selects_closest_witness:
  "fillTick tieGame
     = andThen (dispense TL tieGame)
         (\<lambda>(g', frames, dropLocation). Inr (g'\<lparr>currentlyMoving := Some dropLocation\<rparr>, frames))
   \<and> map_sum id (\<lambda>(g', frames). (currentlyMoving g', length frames)) (fillTick tieGame)
       = Inr (Some (Vec 0 1), 9)
   \<and> distance (Vec 6 1) (getDispenseLocation BL) = sqrt 61
   \<and> distance (Vec 6 1) (getDispenseLocation TL) = 6
   \<and> distance (Vec 6 1) (getDispenseLocation TR) = 6
   \<and> fillTick (tieGame\<lparr>availableReservoirs := []\<rparr>) = Inr (tieGame\<lparr>availableReservoirs := []\<rparr>, [])"
proof -
  let ?d = "\<lambda>t. sqrt (real_of_int ((vx (Vec 6 1) - vx t)\<^sup>2)
                      + real_of_int ((vy (Vec 6 1) - vy t)\<^sup>2))"
  have q: "needFilling tieGame = Vec 6 1 # []" and m: "currentlyMoving tieGame = None"
    by (simp_all add: tieGame_def exampleGame_def)
  have e: "inElectrodes (Vec 6 1)" by (simp add: inElectrodes_def gameSize_x_def gameSize_y_def)
  have av: "availableReservoirs tieGame = [BL, TL, TR]"
    by (simp add: tieGame_def)
  have dBL: "?d (getDispenseLocation BL) = sqrt 61"
    and dTL: "?d (getDispenseLocation TL) = 6"
    and dTR: "?d (getDispenseLocation TR) = 6"
    by (simp_all add: tie_targets)
  from fillTick_selects_closest [OF q m e] av obtain pre r post where
    dec: "[BL, TL, TR] = pre @ r # post"
    and before: "\<forall>p \<in> set pre. ?d (getDispenseLocation r) < ?d (getDispenseLocation p)"
    and after: "\<forall>p \<in> set post. ?d (getDispenseLocation r) \<le> ?d (getDispenseLocation p)"
    and run: "fillTick tieGame
                = andThen (dispense r tieGame)
                    (\<lambda>(g', frames, dropLocation).
                       Inr (g'\<lparr>currentlyMoving := Some dropLocation\<rparr>, frames))"
    by auto
  have "r = TL"
  proof (cases pre)
    case Nil
    then have "r = BL" and "post = [TL, TR]" using dec by simp_all
    then have "?d (getDispenseLocation BL) \<le> ?d (getDispenseLocation TL)" using after by simp
    then have "sqrt 61 \<le> (6::real)" unfolding dBL dTL .
    then show ?thesis using sqrt_61_above_6 by simp
  next
    case (Cons p pre')
    then have p: "p = BL" and rest: "[TL, TR] = pre' @ r # post" using dec by simp_all
    show ?thesis
    proof (cases pre')
      case Nil
      then show ?thesis using rest by simp
    next
      case (Cons p' pre'')
      then have "p' = TL" and "[TR] = pre'' @ r # post" using rest by simp_all
      then have "r = TR" and "TL \<in> set pre"
        using \<open>pre = p # pre'\<close> Cons by (simp_all add: Cons_eq_append_conv)
      then have "?d (getDispenseLocation TR) < ?d (getDispenseLocation TL)" using before by blast
      then have "(6::real) < 6" unfolding dTR dTL .
      then show ?thesis by simp
    qed
  qed
  have dist: "distance (Vec 6 1) (getDispenseLocation BL) = sqrt 61"
    "distance (Vec 6 1) (getDispenseLocation TL) = 6"
    "distance (Vec 6 1) (getDispenseLocation TR) = 6"
    by (simp_all add: distance_def tie_targets)
  have sel: "fillTick tieGame
               = andThen (dispense TL tieGame)
                   (\<lambda>(g', frames, dropLocation).
                      Inr (g'\<lparr>currentlyMoving := Some dropLocation\<rparr>, frames))"
    using run \<open>r = TL\<close> by simp
  have "map_sum id (\<lambda>(g', frames). (currentlyMoving g', length frames))
          (andThen (dispense TL tieGame)
             (\<lambda>(g', frames, dropLocation).
                Inr (g'\<lparr>currentlyMoving := Some dropLocation\<rparr>, frames)))
        = Inr (Some (Vec 0 1), 9)"
    by code_simp
  then have conc: "map_sum id (\<lambda>(g', frames). (currentlyMoving g', length frames)) (fillTick tieGame)
                     = Inr (Some (Vec 0 1), 9)"
    by (simp only: sel)
  have q0: "needFilling (tieGame\<lparr>availableReservoirs := []\<rparr>) = Vec 6 1 # []"
    and m0: "currentlyMoving (tieGame\<lparr>availableReservoirs := []\<rparr>) = None"
    by (simp_all add: tieGame_def exampleGame_def)
  have none: "fillTick (tieGame\<lparr>availableReservoirs := []\<rparr>)
                = Inr (tieGame\<lparr>availableReservoirs := []\<rparr>, [])"
    using fillTick_selects_closest [OF q0 m0 e] by simp
  show ?thesis
    using sel conc none dist by simp
qed

subsection \<open>Landing and merging\<close>

lemma gridGet_occupiedAt:
  "0 \<le> ty \<Longrightarrow> ty < int (length blocks) \<Longrightarrow> gridGet blocks ty tx = Inr (occupiedAt blocks tx ty)"
  by (simp add: gridGet_def occupiedAt_def)

lemma isValidMoveLoop_eq:
  assumes "gameSize_x \<le> length blocks"
  shows "isValidMoveLoop blocks p cs
         = Inr (list_all (\<lambda>c. cellInPlayable p c
                              \<and> \<not> occupiedAt blocks (vx p + int (fst c)) (vy p + int (snd c))) cs)"
proof (induction cs)
  case Nil
  then show ?case by simp
next
  case (Cons c cs)
  obtain x y where c: "c = (x, y)" by (cases c)
  show ?case
  proof (cases "cellInPlayable p c")
    case False
    then show ?thesis
      unfolding c by (auto simp: cellInPlayable_def Let_def)
  next
    case True
    then have "0 \<le> vy p + int y" "vy p + int y < int (length blocks)"
      using assms by (simp_all add: cellInPlayable_def c)
    then have "gridGet blocks (vy p + int y) (vx p + int x)
                 = Inr (occupiedAt blocks (vx p + int x) (vy p + int y))"
      by (rule gridGet_occupiedAt)
    then show ?thesis
      using True Cons.IH unfolding c by (auto simp: cellInPlayable_def Let_def)
  qed
qed

lemma hasLandedLoop_eq:
  assumes "gameSize_x \<le> length blocks"
    and "list_all (\<lambda>c. 0 \<le> vy p + int (snd c) + 1) cs"
  shows "hasLandedLoop blocks p cs
         = Inr (list_ex (\<lambda>c. vy p + int (snd c) + 1 \<ge> int gameSize_x
                              \<or> occupiedAt blocks (vx p + int (fst c)) (vy p + int (snd c) + 1)) cs)"
  using assms(2)
proof (induction cs)
  case Nil
  then show ?case by simp
next
  case (Cons c cs)
  obtain x y where c: "c = (x, y)" by (cases c)
  show ?case
  proof (cases "vy p + int y + 1 \<ge> int gameSize_x")
    case True
    then show ?thesis unfolding c by (simp add: Let_def)
  next
    case False
    then have "0 \<le> vy p + int y + 1" "vy p + int y + 1 < int (length blocks)"
      using assms(1) Cons.prems by (simp_all add: c)
    then have "gridGet blocks (vy p + int y + 1) (vx p + int x)
                 = Inr (occupiedAt blocks (vx p + int x) (vy p + int y + 1))"
      by (rule gridGet_occupiedAt)
    then show ?thesis
      using False Cons unfolding c by (auto simp: Let_def)
  qed
qed

lemma isGrid_length: "isGrid h w g \<Longrightarrow> length g = h"
  by (simp add: isGrid_def)

lemma occupiedAt_gridSet:
  assumes "isGrid h w g" "0 \<le> i" "i < int h" "0 \<le> j" "j < int w"
  shows "occupiedAt (g[nat i := (g ! nat i)[nat j := True]]) X Y
         \<longleftrightarrow> occupiedAt g X Y \<or> (X = j \<and> Y = i)"
proof -
  have len: "length g = h" using assms(1) by (rule isGrid_length)
  have row: "length (g ! nat i) = w" using assms by (simp add: isGrid_row)
  show ?thesis
  proof (cases "0 \<le> Y \<and> Y < int h \<and> 0 \<le> X")
    case False
    then show ?thesis using assms len by (auto simp: occupiedAt_def)
  next
    case True
    show ?thesis
    proof (cases "Y = i")
      case False
      then have "nat Y \<noteq> nat i" using True assms(2) by arith
      then show ?thesis using True False len by (simp add: occupiedAt_def)
    next
      case Yi: True
      show ?thesis
      proof (cases "X = j")
        case True
        then show ?thesis using Yi assms len row by (simp add: occupiedAt_def rowCell_def)
      next
        case False
        then have "nat X \<noteq> nat j" using True assms(4) by arith
        then show ?thesis using True Yi False len assms
          by (simp add: occupiedAt_def rowCell_def)
      qed
    qed
  qed
qed

lemma finalize_merges:
  assumes "isGrid gameSize_x gameSize_y blocks" "list_all (cellInPlayable p) cs"
  shows "\<exists>merged. foldE (finalizeCell p) cs blocks = Inr merged
           \<and> isGrid gameSize_x gameSize_y merged
           \<and> (\<forall>X Y. occupiedAt merged X Y
                 \<longleftrightarrow> occupiedAt blocks X Y
                    \<or> list_ex (\<lambda>c. X = vx p + int (fst c) \<and> Y = vy p + int (snd c)) cs)"
  using assms
proof (induction cs arbitrary: blocks)
  case Nil
  then show ?case by simp
next
  case (Cons c cs)
  obtain x y where c: "c = (x, y)" by (cases c)
  let ?i = "vy p + int y" and ?j = "vx p + int x"
  let ?b = "blocks[nat ?i := (blocks ! nat ?i)[nat ?j := True]]"
  have inb: "0 \<le> ?i" "?i < int gameSize_x" "0 \<le> ?j" "?j < int gameSize_y"
    using Cons.prems(2) by (simp_all add: cellInPlayable_def c)
  have set: "gridSet blocks ?i ?j True = Inr ?b"
    and grid: "isGrid gameSize_x gameSize_y ?b"
    using gridSet_inside [OF Cons.prems(1) inb] by simp_all
  have occ: "occupiedAt ?b X Y \<longleftrightarrow> occupiedAt blocks X Y \<or> (X = ?j \<and> Y = ?i)" for X Y
    using occupiedAt_gridSet [OF Cons.prems(1) inb] by simp
  from Cons.IH [OF grid] Cons.prems(2) obtain merged where
    m: "foldE (finalizeCell p) cs ?b = Inr merged"
       "isGrid gameSize_x gameSize_y merged"
       "\<forall>X Y. occupiedAt merged X Y
                 \<longleftrightarrow> occupiedAt ?b X Y
                    \<or> list_ex (\<lambda>c. X = vx p + int (fst c) \<and> Y = vy p + int (snd c)) cs"
    by auto
  have "foldE (finalizeCell p) (c # cs) blocks = Inr merged"
    using set m(1) by (simp add: finalizeCell_def c)
  moreover have "occupiedAt merged X Y
                 \<longleftrightarrow> occupiedAt blocks X Y
                    \<or> list_ex (\<lambda>c. X = vx p + int (fst c) \<and> Y = vy p + int (snd c)) (c # cs)"
    for X Y
    using m(3) occ by (auto simp: c)
  ultimately show ?case using m(2) by blast
qed

lemma orientations_closed:
  "list_all (\<lambda>sh. rotate sh 1 \<in> set (orientations ty)
                   \<and> coversCenter sh (rotate sh 1)
                   \<and> length sh = length (tetrominoShapes ty))
            (orientations ty)"
  by (cases ty; hypsubst; code_simp)

lemma spawn_in_playable: "inPlayable tetroSpawnPosition (tetrominoShapes ty)"
  by (cases ty; hypsubst; code_simp)

lemma blocks_rows: "pieceInv s \<Longrightarrow> gameSize_x \<le> length (currentBlocks s)"
  by (simp add: pieceInv_def isGrid_def)

lemma isValidMove_eq:
  assumes "pieceInv s"
  shows "isValidMove s p sh
         = Inr (list_all (\<lambda>c. cellInPlayable p c
                  \<and> \<not> occupiedAt (currentBlocks s) (vx p + int (fst c)) (vy p + int (snd c)))
                 (shapeCells sh))"
  unfolding isValidMove_def using blocks_rows [OF assms] by (rule isValidMoveLoop_eq)

lemma isValidMove_in_playable:
  assumes "pieceInv s" "isValidMove s p sh = Inr True"
  shows "inPlayable p sh"
  using assms(2) unfolding isValidMove_eq [OF assms(1)] inPlayable_def
  by (simp add: list_all_iff)

lemma orientation_step:
  assumes "sh \<in> set (orientations ty)"
  shows "rotate sh 1 \<in> set (orientations ty)"
    and "coversCenter sh (rotate sh 1)"
    and "length sh = length (tetrominoShapes ty)"
  using orientations_closed [of ty] assms
  by (simp_all add: list_all_iff)

lemma testRotations_inv:
  assumes "pieceInv s"
  shows "\<exists>s' ok. testRotations 1 s = Inr (s', ok) \<and> pieceInv s'
           \<and> droppingTetro s' = droppingTetro s \<and> currentBlocks s' = currentBlocks s
           \<and> finished s' = finished s \<and> moving s' = moving s"
proof -
  let ?sh = "rotate (shape (droppingTetro s)) 1"
  let ?p = "pos (droppingTetro s)"
  obtain ok where ok: "isValidMove s ?p ?sh = Inr ok"
    using isValidMove_eq [OF assms] by blast
  show ?thesis
  proof (cases ok)
    case True
    then have "isValidMove s ?p ?sh = Inr True" using ok by simp
    then have "inPlayable ?p ?sh" using assms by (intro isValidMove_in_playable)
    then have "pieceInv (s\<lparr>newShape := ?sh, rotationState := Starting\<rparr>)"
      using assms by (simp add: pieceInv_def)
    moreover have "testRotations 1 s
                     = Inr (s\<lparr>newShape := ?sh, rotationState := Starting\<rparr>, True)"
      using ok True by (simp add: testRotations_def Let_def)
    ultimately show ?thesis by fastforce
  next
    case False
    then have "testRotations 1 s = Inr (s, False)"
      using ok by (simp add: testRotations_def Let_def)
    then show ?thesis using assms by fastforce
  qed
qed

lemma move_inv:
  assumes "pieceInv s" "rotationState s = NotRotating"
  shows "pieceInv (move d s)" and "rotationState (move d s) = NotRotating"
    and "finished (move d s) = finished s" and "currentBlocks (move d s) = currentBlocks s"
proof -
  let ?p = "vecAdd (pos (droppingTetro s)) (Directions d)"
  obtain ok where ok: "isValidMove s ?p (shape (droppingTetro s)) = Inr ok"
    using isValidMove_eq [OF assms(1)] by blast
  have m: "move d s = (if ok then s\<lparr>droppingTetro := (droppingTetro s)\<lparr>pos := ?p\<rparr>\<rparr> else s)
                        \<lparr>moving := DOWN\<rparr>"
    using ok by (simp add: move_def Let_def)
  have "inPlayable ?p (shape (droppingTetro s))" if "ok"
  proof -
    have "isValidMove s ?p (shape (droppingTetro s)) = Inr True" using ok that by simp
    then show ?thesis using assms(1) by (intro isValidMove_in_playable)
  qed
  then show "pieceInv (move d s)"
    using assms unfolding m by (auto simp: pieceInv_def newTetromino_def)
  show "rotationState (move d s) = NotRotating"
    using assms(2) unfolding m by simp
  show "finished (move d s) = finished s" unfolding m by simp
  show "currentBlocks (move d s) = currentBlocks s" unfolding m by simp
qed

lemma applyRotation_inv:
  assumes "pieceInv s"
  shows "pieceInv (applyRotation s)"
    and "finished (applyRotation s) = finished s"
    and "currentBlocks (applyRotation s) = currentBlocks s"
proof -
  show "pieceInv (applyRotation s)"
  proof (cases "rotationState s")
    case Coalesce
    then have n: "newShape s = rotate (shape (droppingTetro s)) 1"
      and p: "inPlayable (pos (droppingTetro s)) (newShape s)"
      using assms by (auto simp: pieceInv_def)
    have "newShape s \<in> set (orientations (ttype (droppingTetro s)))"
      unfolding n using assms by (intro orientation_step(1)) (simp add: pieceInv_def)
    moreover have "isGrid gameSize_x gameSize_y (currentBlocks s)"
      and "tsize (droppingTetro s)
            = tsize (newTetromino (ttype (droppingTetro s)) tetroSpawnPosition)"
      using assms by (simp_all add: pieceInv_def)
    ultimately show ?thesis
      using Coalesce p by (simp add: applyRotation_def pieceInv_def newTetromino_def)
  qed (use assms in \<open>auto simp: applyRotation_def pieceInv_def\<close>)
  show "finished (applyRotation s) = finished s"
    by (cases "rotationState s") (simp_all add: applyRotation_def)
  show "currentBlocks (applyRotation s) = currentBlocks s"
    by (cases "rotationState s") (simp_all add: applyRotation_def)
qed

lemma hasLanded_eq:
  assumes "pieceInv s"
  shows "hasLanded s (pos (droppingTetro s)) (shape (droppingTetro s))
         = Inr (list_ex (\<lambda>c. vy (pos (droppingTetro s)) + int (snd c) + 1 \<ge> int gameSize_x
                  \<or> occupiedAt (currentBlocks s) (vx (pos (droppingTetro s)) + int (fst c))
                       (vy (pos (droppingTetro s)) + int (snd c) + 1))
                 (shapeCells (shape (droppingTetro s))))"
proof -
  have "list_all (cellInPlayable (pos (droppingTetro s))) (shapeCells (shape (droppingTetro s)))"
    using assms by (simp add: pieceInv_def inPlayable_def)
  then have "list_all (\<lambda>c. 0 \<le> vy (pos (droppingTetro s)) + int (snd c) + 1)
               (shapeCells (shape (droppingTetro s)))"
    by (auto simp: list_all_iff cellInPlayable_def)
  then show ?thesis
    unfolding hasLanded_def using blocks_rows [OF assms] by (intro hasLandedLoop_eq)
qed

lemma top_row_occupied:
  assumes "isGrid gameSize_x gameSize_y blocks"
  shows "(\<exists>cell \<in> set (blocks ! topLevel). cell) \<longleftrightarrow> (\<exists>X. occupiedAt blocks X (int topLevel))"
proof -
  have len: "length blocks = 14" using assms by (simp add: isGrid_def)
  show ?thesis
  proof
    assume "\<exists>cell \<in> set (blocks ! topLevel). cell"
    then obtain i where i: "i < length (blocks ! topLevel)" "blocks ! topLevel ! i"
      by (auto simp: in_set_conv_nth)
    then have "occupiedAt blocks (int i) (int topLevel)"
      using len by (simp add: occupiedAt_def rowCell_def topLevel_def)
    then show "\<exists>X. occupiedAt blocks X (int topLevel)" ..
  next
    assume "\<exists>X. occupiedAt blocks X (int topLevel)"
    then obtain X where "occupiedAt blocks X (int topLevel)" ..
    then have "nat X < length (blocks ! topLevel)" "blocks ! topLevel ! nat X"
      by (simp_all add: occupiedAt_def rowCell_def)
    then show "\<exists>cell \<in> set (blocks ! topLevel). cell"
      by (metis nth_mem)
  qed
qed

lemma newTetromino_inv:
  "inPlayable (pos (newTetromino rnd tetroSpawnPosition)) (shape (newTetromino rnd tetroSpawnPosition))"
  "shape (newTetromino rnd tetroSpawnPosition)
     \<in> set (orientations (ttype (newTetromino rnd tetroSpawnPosition)))"
  "tsize (newTetromino rnd tetroSpawnPosition)
     = tsize (newTetromino (ttype (newTetromino rnd tetroSpawnPosition)) tetroSpawnPosition)"
  by (simp_all add: newTetromino_def spawn_in_playable orientations_def Let_def)

lemma land_result:
  assumes "pieceInv s"
  shows "\<exists>merged.
           foldE (finalizeCell (pos (droppingTetro s))) (shapeCells (shape (droppingTetro s)))
             (currentBlocks s) = Inr merged
         \<and> isGrid gameSize_x gameSize_y merged
         \<and> (\<forall>X Y. occupiedAt merged X Y
               \<longleftrightarrow> occupiedAt (currentBlocks s) X Y
                  \<or> list_ex (\<lambda>c. X = vx (pos (droppingTetro s)) + int (fst c)
                                 \<and> Y = vy (pos (droppingTetro s)) + int (snd c))
                       (shapeCells (shape (droppingTetro s))))
         \<and> land rnd s
             = Inr (if (\<exists>X. occupiedAt merged X (int topLevel)) \<or> finished s
                    then s\<lparr>rotationState := NotRotating, currentBlocks := merged,
                           finished := True\<rparr>
                    else primeDroppingTetro
                           (s\<lparr>rotationState := NotRotating, currentBlocks := merged,
                              droppingTetro := newTetromino rnd tetroSpawnPosition\<rparr>))
         \<and> (\<forall>s'. land rnd s = Inr s' \<longrightarrow> pieceInv s')"
proof -
  let ?p = "pos (droppingTetro s)" and ?cs = "shapeCells (shape (droppingTetro s))"
  have grid: "isGrid gameSize_x gameSize_y (currentBlocks s)"
    and cells: "list_all (cellInPlayable ?p) ?cs"
    using assms by (simp_all add: pieceInv_def inPlayable_def)
  from finalize_merges [OF grid cells] obtain merged where
    m: "foldE (finalizeCell ?p) ?cs (currentBlocks s) = Inr merged"
    and mg: "isGrid gameSize_x gameSize_y merged"
    and mo: "\<forall>X Y. occupiedAt merged X Y
               \<longleftrightarrow> occupiedAt (currentBlocks s) X Y
                  \<or> list_ex (\<lambda>c. X = vx ?p + int (fst c) \<and> Y = vy ?p + int (snd c)) ?cs"
    by blast
  let ?s3 = "s\<lparr>rotationState := NotRotating, currentBlocks := merged\<rparr>"
  have fin: "finalizeTetromino (resetRotationState s) = Inr ?s3"
    using m by (simp add: finalizeTetromino_def resetRotationState_def)
  have rows: "topLevel < length merged" using mg by (simp add: isGrid_def topLevel_def)
  have top: "(\<exists>cell \<in> set (merged ! topLevel). cell) \<longleftrightarrow> (\<exists>X. occupiedAt merged X (int topLevel))"
    using mg by (rule top_row_occupied)
  let ?r = "if (\<exists>X. occupiedAt merged X (int topLevel)) \<or> finished s
            then s\<lparr>rotationState := NotRotating, currentBlocks := merged, finished := True\<rparr>
            else primeDroppingTetro
                   (s\<lparr>rotationState := NotRotating, currentBlocks := merged,
                      droppingTetro := newTetromino rnd tetroSpawnPosition\<rparr>)"
  have run: "land rnd s = Inr ?r"
    unfolding land_def fin using rows top by (auto simp: Let_def)
  have "pieceInv ?r"
    using assms mg newTetromino_inv [of rnd]
    by (auto simp: pieceInv_def primeDroppingTetro_def Let_def)
  then show ?thesis using m mg mo run by auto
qed

lemma pieceInv_aboutRotate [simp]: "pieceInv (s\<lparr>aboutRotate := b\<rparr>) = pieceInv s"
  by (simp add: pieceInv_def)

lemma advance_inv:
  assumes "pieceInv s"
  shows "\<exists>s'. advance s = Inr s' \<and> pieceInv s' \<and> finished s' = finished s
           \<and> currentBlocks s' = currentBlocks s"
proof -
  obtain s1 where s1: "(if aboutRotate s
        then andThen (testRotations 1 s) (\<lambda>(s, ok). Inr (s\<lparr>aboutRotate := False\<rparr>))
        else Inr s) = Inr s1"
    and inv1: "pieceInv s1" and f1: "finished s1 = finished s"
    and b1: "currentBlocks s1 = currentBlocks s"
  proof (cases "aboutRotate s")
    case True
    from testRotations_inv [OF assms] obtain t ok where
      "testRotations 1 s = Inr (t, ok)" "pieceInv t" "finished t = finished s"
      "currentBlocks t = currentBlocks s"
      by blast
    then show ?thesis using True that [of "t\<lparr>aboutRotate := False\<rparr>"] by simp
  next
    case False
    then show ?thesis using assms that [of s] by simp
  qed
  let ?s2 = "if rotationState s1 = NotRotating then move (moving s1) s1 else applyRotation s1"
  have run: "advance s = Inr ?s2"
    unfolding advance_def s1 by simp
  have "pieceInv ?s2 \<and> finished ?s2 = finished s \<and> currentBlocks ?s2 = currentBlocks s"
    using move_inv [OF inv1] applyRotation_inv [OF inv1] f1 b1 by simp
  then show ?thesis using run by blast
qed

lemma tick_inv:
  assumes "pieceInv s"
  shows "\<exists>s'. tick rnd s = Inr s' \<and> pieceInv s'"
proof (cases "finished s")
  case True
  then show ?thesis using assms by (simp add: tick_def)
next
  case False
  from advance_inv [OF assms] obtain s2 where
    a: "advance s = Inr s2" and inv2: "pieceInv s2"
    by blast
  obtain landed where
    l: "hasLanded s2 (pos (droppingTetro s2)) (shape (droppingTetro s2)) = Inr landed"
    using hasLanded_eq [OF inv2] by blast
  from land_result [OF inv2, of rnd] obtain s3 where
    s3: "land rnd s2 = Inr s3" "pieceInv s3"
    by auto
  have "tick rnd s = Inr (if landed then s3 else s2)"
    using False a l s3(1) by (simp add: tick_def)
  then show ?thesis using inv2 s3(2) by auto
qed

lemma ticks_after_finish: "finished s \<Longrightarrow> foldE tick rnds s = Inr s"
  by (induction rnds) (simp_all add: tick_def)

text \<open>
  Claim C6. On a state whose static grid is well formed and whose piece lies in the
  playable grid (the invariant of claim C8): \<open>hasLanded\<close> answers true exactly when
  some occupied cell of the piece has the cell below it at or beyond the bottom row or
  occupied in the static grid; a tick of an unfinished game whose piece has landed after
  its move or rotation step merges the cells of the piece into the static grid and leaves
  \<open>finished\<close> true exactly when the row \<open>topLevel\<close> then holds an occupied cell; and
  once \<open>finished\<close> is true, any number of ticks leave the whole state as it is.
\<close>

theorem landing_merge_and_game_over:
  assumes "pieceInv s"
  shows "hasLanded s (pos (droppingTetro s)) (shape (droppingTetro s))
           = Inr (\<exists>c \<in> set (shapeCells (shape (droppingTetro s))).
                    vy (pos (droppingTetro s)) + int (snd c) + 1 \<ge> int gameSize_x
                    \<or> occupiedAt (currentBlocks s)
                         (vx (pos (droppingTetro s)) + int (fst c))
                         (vy (pos (droppingTetro s)) + int (snd c) + 1))
       \<and> (\<not> finished s \<longrightarrow>
            (\<exists>s2 s'. advance s = Inr s2 \<and> pieceInv s2 \<and> tick rnd s = Inr s'
               \<and> (hasLanded s2 (pos (droppingTetro s2)) (shape (droppingTetro s2)) = Inr False
                    \<longrightarrow> s' = s2)
               \<and> (hasLanded s2 (pos (droppingTetro s2)) (shape (droppingTetro s2)) = Inr True
                    \<longrightarrow> (\<forall>X Y. occupiedAt (currentBlocks s') X Y
                            \<longleftrightarrow> occupiedAt (currentBlocks s2) X Y
                               \<or> (\<exists>c \<in> set (shapeCells (shape (droppingTetro s2))).
                                     X = vx (pos (droppingTetro s2)) + int (fst c)
                                     \<and> Y = vy (pos (droppingTetro s2)) + int (snd c)))
                        \<and> (finished s' \<longleftrightarrow> (\<exists>X. occupiedAt (currentBlocks s') X (int topLevel))))))
       \<and> (finished s \<longrightarrow> foldE tick rnds s = Inr s)"
proof (intro conjI impI)
  show "hasLanded s (pos (droppingTetro s)) (shape (droppingTetro s))
           = Inr (\<exists>c \<in> set (shapeCells (shape (droppingTetro s))).
                    vy (pos (droppingTetro s)) + int (snd c) + 1 \<ge> int gameSize_x
                    \<or> occupiedAt (currentBlocks s)
                         (vx (pos (droppingTetro s)) + int (fst c))
                         (vy (pos (droppingTetro s)) + int (snd c) + 1))"
    unfolding hasLanded_eq [OF assms] by (simp add: list_ex_iff)
next
  assume "finished s"
  then show "foldE tick rnds s = Inr s" by (rule ticks_after_finish)
next
  assume nf: "\<not> finished s"
  from advance_inv [OF assms] obtain s2 where
    a: "advance s = Inr s2" and inv2: "pieceInv s2" and f2: "finished s2 = finished s"
    by blast
  let ?landed = "hasLanded s2 (pos (droppingTetro s2)) (shape (droppingTetro s2))"
  obtain landed where l: "?landed = Inr landed"
    using hasLanded_eq [OF inv2] by blast
  from land_result [OF inv2, of rnd] obtain merged where
    mo: "\<forall>X Y. occupiedAt merged X Y
               \<longleftrightarrow> occupiedAt (currentBlocks s2) X Y
                  \<or> list_ex (\<lambda>c. X = vx (pos (droppingTetro s2)) + int (fst c)
                                 \<and> Y = vy (pos (droppingTetro s2)) + int (snd c))
                       (shapeCells (shape (droppingTetro s2)))"
    and run: "land rnd s2
             = Inr (if (\<exists>X. occupiedAt merged X (int topLevel)) \<or> finished s2
                    then s2\<lparr>rotationState := NotRotating, currentBlocks := merged,
                            finished := True\<rparr>
                    else primeDroppingTetro
                           (s2\<lparr>rotationState := NotRotating, currentBlocks := merged,
                               droppingTetro := newTetromino rnd tetroSpawnPosition\<rparr>))"
    by blast
  let ?s3 = "if (\<exists>X. occupiedAt merged X (int topLevel)) \<or> finished s2
             then s2\<lparr>rotationState := NotRotating, currentBlocks := merged, finished := True\<rparr>
             else primeDroppingTetro
                    (s2\<lparr>rotationState := NotRotating, currentBlocks := merged,
                        droppingTetro := newTetromino rnd tetroSpawnPosition\<rparr>)"
  let ?s' = "if landed then ?s3 else s2"
  have t: "tick rnd s = Inr ?s'"
    using nf a l run by (simp add: tick_def)
  have b3: "currentBlocks ?s3 = merged"
    by (simp add: primeDroppingTetro_def Let_def)
  have f3: "finished ?s3 \<longleftrightarrow> (\<exists>X. occupiedAt merged X (int topLevel))"
    using f2 nf by (simp add: primeDroppingTetro_def Let_def)
  have notl: "?landed = Inr False \<longrightarrow> ?s' = s2" using l by simp
  have yesl: "?landed = Inr True \<longrightarrow>
        (\<forall>X Y. occupiedAt (currentBlocks ?s') X Y
                  \<longleftrightarrow> occupiedAt (currentBlocks s2) X Y
                     \<or> (\<exists>c \<in> set (shapeCells (shape (droppingTetro s2))).
                           X = vx (pos (droppingTetro s2)) + int (fst c)
                           \<and> Y = vy (pos (droppingTetro s2)) + int (snd c)))
        \<and> (finished ?s' \<longleftrightarrow> (\<exists>X. occupiedAt (currentBlocks ?s') X (int topLevel)))"
  proof
    assume "?landed = Inr True"
    then have "landed" using l by simp
    then have s': "?s' = ?s3" by simp
    show "(\<forall>X Y. occupiedAt (currentBlocks ?s') X Y
                  \<longleftrightarrow> occupiedAt (currentBlocks s2) X Y
                     \<or> (\<exists>c \<in> set (shapeCells (shape (droppingTetro s2))).
                           X = vx (pos (droppingTetro s2)) + int (fst c)
                           \<and> Y = vy (pos (droppingTetro s2)) + int (snd c)))
        \<and> (finished ?s' \<longleftrightarrow> (\<exists>X. occupiedAt (currentBlocks ?s') X (int topLevel)))"
      unfolding s' b3 using mo f3 by (simp add: list_ex_iff)
  qed
  show "\<exists>s2 s'. advance s = Inr s2 \<and> pieceInv s2 \<and> tick rnd s = Inr s'
               \<and> (hasLanded s2 (pos (droppingTetro s2)) (shape (droppingTetro s2)) = Inr False
                    \<longrightarrow> s' = s2)
               \<and> (hasLanded s2 (pos (droppingTetro s2)) (shape (droppingTetro s2)) = Inr True
                    \<longrightarrow> (\<forall>X Y. occupiedAt (currentBlocks s') X Y
                            \<longleftrightarrow> occupiedAt (currentBlocks s2) X Y
                               \<or> (\<exists>c \<in> set (shapeCells (shape (droppingTetro s2))).
                                     X = vx (pos (droppingTetro s2)) + int (fst c)
                                     \<and> Y = vy (pos (droppingTetro s2)) + int (snd c)))
                        \<and> (finished s' \<longleftrightarrow> (\<exists>X. occupiedAt (currentBlocks s') X (int topLevel))))"
    using a inv2 t notl yesl by blast
qed

subsection \<open>The playable grid\<close>

lemma gridSet_grid:
  assumes "isGrid h w g" "0 \<le> i" "i < int h" "0 \<le> j" "j < int w"
  shows "\<exists>g'. gridSet g i j v = Inr g' \<and> isGrid h w g'"
  using gridSet_inside [OF assms] by blast

lemma foldE_grid:
  assumes step: "\<And>c g. c \<in> set cs \<Longrightarrow> isGrid h w g \<Longrightarrow> \<exists>g'. f c g = Inr g' \<and> isGrid h w g'"
    and "isGrid h w g"
  shows "\<exists>g'. foldE f cs g = Inr g' \<and> isGrid h w g'"
  using assms
proof (induction cs arbitrary: g)
  case Nil
  then show ?case by simp
next
  case (Cons c cs)
  from Cons.prems(1) [of c g] Cons.prems(2) obtain g1 where
    g1: "f c g = Inr g1" "isGrid h w g1"
    by auto
  have "\<exists>g'. foldE f cs g1 = Inr g' \<and> isGrid h w g'"
    using Cons.prems(1) g1(2) by (intro Cons.IH) auto
  then show ?case using g1(1) by simp
qed

lemma renderBlock_grid:
  assumes "isGrid gameSize_x gameSize_y blocks" "isGrid gameSize_x gameSize_y ge"
    and "c \<in> set (List.product [0..<gameSize_x] [0..<gameSize_y])"
  shows "\<exists>ge'. renderBlock blocks c ge = Inr ge' \<and> isGrid gameSize_x gameSize_y ge'"
proof -
  obtain x y where c: "c = (x, y)" by (cases c)
  have xy: "x < gameSize_x" "y < gameSize_y" using assms(3) c by simp_all
  have "length blocks = gameSize_x" using assms(1) by (rule isGrid_length)
  then obtain b where b: "gridGet blocks (int x) (int y) = Inr b"
    using xy by (simp add: gridGet_def)
  have "\<exists>ge'. gridSet ge (int x) (int y) True = Inr ge' \<and> isGrid gameSize_x gameSize_y ge'"
    using assms(2) xy by (intro gridSet_grid) simp_all
  then show ?thesis using b assms(2) by (cases b) (simp_all add: renderBlock_def c)
qed

lemma renderUnfilled_grid:
  assumes "isGrid gameSize_x gameSize_y ge" "cellInPlayable p c"
  shows "\<exists>ge'. renderUnfilled p queue c ge = Inr ge' \<and> isGrid gameSize_x gameSize_y ge'"
proof -
  obtain x y where c: "c = (x, y)" by (cases c)
  have "\<exists>ge'. gridSet ge (vy p + int y) (vx p + int x) True = Inr ge'
           \<and> isGrid gameSize_x gameSize_y ge'"
    using assms unfolding c cellInPlayable_def by (intro gridSet_grid) simp_all
  then show ?thesis
    using assms(1) by (auto simp: renderUnfilled_def c Let_def)
qed

lemma tetrominoRenderCell_grid:
  assumes "isGrid h w el" "snd c < length (shape t)"
  shows "\<exists>el'. tetrominoRenderCell t c el = Inr el' \<and> isGrid h w el'"
proof -
  obtain x y where c: "c = (x, y)" by (cases c)
  obtain b where b: "gridGet (shape t) (int y) (int x) = Inr b"
    using assms(2) c by (simp add: gridGet_def)
  let ?Y = "vy (pos t) + int y" and ?X = "vx (pos t) + int x"
  show ?thesis
  proof (cases "b \<and> ?Y \<ge> 0 \<and> ?Y < int (length el) \<and> ?X \<ge> 0 \<and> ?X < int (length (el ! nat ?Y))")
    case True
    then have Y: "0 \<le> ?Y" "?Y < int h" using assms(1) by (simp_all add: isGrid_def)
    then have "nat ?Y < h" by arith
    then have "length (el ! nat ?Y) = w" using assms(1) by (intro isGrid_row)
    then have "\<exists>el'. gridSet el ?Y ?X True = Inr el' \<and> isGrid h w el'"
      using True Y assms(1) by (intro gridSet_grid) simp_all
    then show ?thesis using True b by (simp add: tetrominoRenderCell_def c Let_def)
  next
    case False
    then show ?thesis using b assms(1) by (auto simp: tetrominoRenderCell_def c Let_def)
  qed
qed

lemma Tetromino_render_grid:
  assumes "isGrid h w el" "vy (tsize t) \<le> int (length (shape t))"
  shows "\<exists>el'. Tetromino_render t el = Inr el' \<and> isGrid h w el'"
  unfolding Tetromino_render_def
proof (rule foldE_grid [OF _ assms(1)])
  fix c g
  assume c: "c \<in> set (List.product [0..<nat (vx (tsize t))] [0..<nat (vy (tsize t))])"
    and g: "isGrid h w g"
  have "snd c < length (shape t)" using c assms(2) by auto
  then show "\<exists>g'. tetrominoRenderCell t c g = Inr g' \<and> isGrid h w g'"
    using g by (intro tetrominoRenderCell_grid)
qed

lemma center_in_playable:
  assumes "coversCenter sh sh'" "inPlayable p sh" "inPlayable p sh'"
  shows "0 \<le> vy (vecAdd p centerPos)" "vy (vecAdd p centerPos) < int gameSize_x"
    "0 \<le> vx (vecAdd p centerPos)" "vx (vecAdd p centerPos) < int gameSize_y"
proof -
  have all: "\<forall>c \<in> set (shapeCells sh @ shapeCells sh'). cellInPlayable p c"
    using assms(2,3) by (auto simp: inPlayable_def list_all_iff)
  obtain cx where cx: "cx \<in> set (shapeCells sh @ shapeCells sh')" "int (fst cx) = vx centerPos"
    using assms(1) by (auto simp: coversCenter_def list_ex_iff)
  obtain cy where cy: "cy \<in> set (shapeCells sh @ shapeCells sh')" "int (snd cy) = vy centerPos"
    using assms(1) by (auto simp: coversCenter_def list_ex_iff)
  have "cellInPlayable p cx" "cellInPlayable p cy" using all cx(1) cy(1) by blast+
  then show "0 \<le> vy (vecAdd p centerPos)" "vy (vecAdd p centerPos) < int gameSize_x"
    "0 \<le> vx (vecAdd p centerPos)" "vx (vecAdd p centerPos) < int gameSize_y"
    using cx(2) cy(2) by (simp_all add: cellInPlayable_def vecAdd_def)
qed

lemma tsize_rows:
  assumes "pieceInv s"
  shows "vy (tsize (droppingTetro s)) \<le> int (length (shape (droppingTetro s)))"
proof -
  have "length (shape (droppingTetro s)) = length (tetrominoShapes (ttype (droppingTetro s)))"
    using assms by (intro orientation_step(3)) (simp add: pieceInv_def)
  moreover have "tsize (droppingTetro s)
                   = tsize (newTetromino (ttype (droppingTetro s)) tetroSpawnPosition)"
    using assms by (simp add: pieceInv_def)
  ultimately show ?thesis by (simp add: newTetromino_def)
qed

lemma isGrid_replicate: "isGrid h w (replicate h (replicate w False))"
  by (simp add: isGrid_def list_all_length)

lemma compose_grid:
  assumes "pieceInv s"
  shows "\<exists>ge. compose s = Inr (s\<lparr>gameElectrodes := ge\<rparr>) \<and> isGrid gameSize_x gameSize_y ge"
proof -
  let ?s0 = "clearGameElectrodes s"
  have blocks: "isGrid gameSize_x gameSize_y (currentBlocks s)"
    and piece: "inPlayable (pos (droppingTetro s)) (shape (droppingTetro s))"
    using assms by (simp_all add: pieceInv_def)
  have ge0: "isGrid gameSize_x gameSize_y (gameElectrodes ?s0)"
    unfolding clearGameElectrodes_def using isGrid_replicate [of gameSize_x gameSize_y] by simp
  have "\<exists>ge. foldE (renderBlock (currentBlocks s))
                 (List.product [0..<gameSize_x] [0..<gameSize_y]) (gameElectrodes ?s0) = Inr ge
             \<and> isGrid gameSize_x gameSize_y ge"
    using blocks ge0 by (intro foldE_grid [OF renderBlock_grid]) auto
  then obtain ge1 where
    ge1: "foldE (renderBlock (currentBlocks s))
            (List.product [0..<gameSize_x] [0..<gameSize_y]) (gameElectrodes ?s0) = Inr ge1"
    and g1: "isGrid gameSize_x gameSize_y ge1"
    by blast
  let ?branch = "if needFilling s \<noteq> [] then
                   foldE (renderUnfilled (pos (droppingTetro s)) (needFilling s))
                     (shapeCells (shape (droppingTetro s))) ge1
                 else if rotationState s \<noteq> NotRotating then
                   (case rotationState s of
                      Coalesce \<Rightarrow>
                        (let c = vecAdd (pos (droppingTetro s)) centerPos
                         in gridSet ge1 (vy c) (vx c) True)
                    | _ \<Rightarrow> Tetromino_render (droppingTetro s) ge1)
                 else Tetromino_render (droppingTetro s) ge1"
  have tr: "\<exists>ge. Tetromino_render (droppingTetro s) ge1 = Inr ge \<and> isGrid gameSize_x gameSize_y ge"
    using g1 tsize_rows [OF assms] by (rule Tetromino_render_grid)
  have "\<exists>ge. ?branch = Inr ge \<and> isGrid gameSize_x gameSize_y ge"
  proof (cases "needFilling s \<noteq> []")
    case True
    have "\<exists>ge. foldE (renderUnfilled (pos (droppingTetro s)) (needFilling s))
                     (shapeCells (shape (droppingTetro s))) ge1 = Inr ge
              \<and> isGrid gameSize_x gameSize_y ge"
      using piece g1
      by (intro foldE_grid [OF renderUnfilled_grid]) (auto simp: inPlayable_def list_all_iff)
    then show ?thesis using True by simp
  next
    case False
    show ?thesis
    proof (cases "rotationState s = Coalesce")
      case True
      then have n: "newShape s = rotate (shape (droppingTetro s)) 1"
        and np: "inPlayable (pos (droppingTetro s)) (newShape s)"
        using assms by (auto simp: pieceInv_def)
      have "shape (droppingTetro s) \<in> set (orientations (ttype (droppingTetro s)))"
        using assms by (simp add: pieceInv_def)
      then have "coversCenter (shape (droppingTetro s)) (newShape s)"
        unfolding n by (rule orientation_step(2))
      from center_in_playable [OF this piece np]
      have "\<exists>ge. gridSet ge1 (vy (vecAdd (pos (droppingTetro s)) centerPos))
                    (vx (vecAdd (pos (droppingTetro s)) centerPos)) True = Inr ge
                \<and> isGrid gameSize_x gameSize_y ge"
        using g1 by (intro gridSet_grid)
      then show ?thesis using False True by (simp add: Let_def)
    next
      case nc: False
      then show ?thesis using False tr by (cases "rotationState s") simp_all
    qed
  qed
  then obtain ge2 where ge2: "?branch = Inr ge2" and g2: "isGrid gameSize_x gameSize_y ge2"
    by blast
  have fields: "currentBlocks ?s0 = currentBlocks s" "needFilling ?s0 = needFilling s"
    "droppingTetro ?s0 = droppingTetro s" "rotationState ?s0 = rotationState s"
    by (simp_all add: clearGameElectrodes_def)
  have "compose s = andThen ?branch (\<lambda>ge. Inr (?s0\<lparr>gameElectrodes := ge\<rparr>))"
    unfolding compose_def Let_def fields ge1 by (simp only: andThen_simps)
  then have "compose s = Inr (?s0\<lparr>gameElectrodes := ge2\<rparr>)"
    by (simp only: ge2 andThen_simps)
  moreover have "?s0\<lparr>gameElectrodes := ge2\<rparr> = s\<lparr>gameElectrodes := ge2\<rparr>"
    by (simp add: clearGameElectrodes_def)
  ultimately show ?thesis using g2 by auto
qed

lemma inElectrodes_dispenseLocation: "inElectrodes (getDispenseLocation r)"
  by (cases r) (simp_all add: inElectrodes_def getDispenseLocation_def)

lemma inElectrodes_stepToward:
  "inElectrodes c \<Longrightarrow> inElectrodes e \<Longrightarrow> inElectrodes (stepToward c e)"
  by (auto simp: inElectrodes_def stepToward_def)

lemma findPath_head:
  "findPath c e = (if c = e then [] else stepToward c e # findPathLoop (stepToward c e) e [])"
  by (simp add: findPath_def findPathLoop_done findPathLoop_step)

lemma gridSet_electrodes:
  assumes "isGrid gameSize_y gameSize_x el" "inElectrodes c"
  shows "\<exists>el'. gridSet el (vy c) (vx c) v = Inr el' \<and> isGrid gameSize_y gameSize_x el'"
  using assms by (intro gridSet_grid) (simp_all add: inElectrodes_def)

lemma dispense_fields:
  assumes "isGrid gameSize_y gameSize_x (electrodes g)"
  shows "\<exists>g' frames. dispense r g = Inr (g', frames, getDispenseLocation r)
           \<and> isGrid gameSize_y gameSize_x (electrodes g')
           \<and> needFilling g' = needFilling g \<and> Game.more g' = Game.more g"
proof -
  have grid: "isGrid 8 14 (electrodes g)" using assms by simp
  have "isGrid 8 14 (cellOn (electrodes g) (getDispenseLocation r))"
    using grid by (rule isGrid_cellOn)
  then show ?thesis
    unfolding dispense_run [OF grid]
    by (simp add: fold_waveStep_fields dispenseDropFrame_def del: upt_rec_numeral)
qed

lemma fillTick_inv:
  assumes "boardInv g"
  shows "\<exists>g' frames. fillTick g = Inr (g', frames) \<and> boardInv g' \<and> Game.more g' = Game.more g"
proof (cases "needFilling g")
  case Nil
  then show ?thesis using assms by (simp add: fillTick_def)
next
  case (Cons e rest)
  have grid: "isGrid gameSize_y gameSize_x (electrodes g)"
    and queue: "inElectrodes e" "list_all inElectrodes rest"
    using assms Cons by (simp_all add: boardInv_def)
  show ?thesis
  proof (cases "currentlyMoving g")
    case None
    show ?thesis
    proof (cases "closestLoop e (availableReservoirs g) None None")
      case n: None
      then show ?thesis using assms Cons None by (simp add: fillTick_def)
    next
      case (Some r)
      from dispense_fields [OF grid, of r] obtain g' frames where
        d: "dispense r g = Inr (g', frames, getDispenseLocation r)"
        and g': "isGrid gameSize_y gameSize_x (electrodes g')"
           "needFilling g' = needFilling g" "Game.more g' = Game.more g"
        by blast
      have "fillTick g = Inr (g'\<lparr>currentlyMoving := Some (getDispenseLocation r)\<rparr>, frames)"
        using Cons None Some d by (simp add: fillTick_def)
      moreover have "boardInv (g'\<lparr>currentlyMoving := Some (getDispenseLocation r)\<rparr>)"
        using g' assms by (simp add: boardInv_def inElectrodes_dispenseLocation)
      ultimately show ?thesis using g'(3) by auto
    qed
  next
    case (Some cm)
    then have cm: "inElectrodes cm" using assms by (simp add: boardInv_def)
    show ?thesis
    proof (cases "cm = e")
      case True
      then have "findPath cm e = []" by (simp add: findPath_head)
      then show ?thesis using assms Cons Some by (simp add: fillTick_def)
    next
      case False
      let ?n = "stepToward cm e"
      have path: "findPath cm e = ?n # findPathLoop ?n e []"
        using False by (simp add: findPath_head)
      have n: "inElectrodes ?n" using cm queue(1) by (rule inElectrodes_stepToward)
      from gridSet_electrodes [OF grid n] obtain el1 where
        el1: "gridSet (electrodes g) (vy ?n) (vx ?n) True = Inr el1"
           "isGrid gameSize_y gameSize_x el1"
        by blast
      from gridSet_electrodes [OF el1(2) cm] obtain el2 where
        el2: "gridSet el1 (vy cm) (vx cm) False = Inr el2"
           "isGrid gameSize_y gameSize_x el2"
        by blast
      let ?g1 = "g\<lparr>electrodes := el2, currentlyMoving := Some ?n\<rparr>"
      let ?g' = "if vx ?n = vx e \<and> vy ?n = vy e
                 then ?g1\<lparr>needFilling := tl (needFilling ?g1), currentlyMoving := None\<rparr>
                 else ?g1"
      have "fillTick g = Inr (?g', [])"
        using Cons Some path el1(1) el2(1) by (simp add: fillTick_def Let_def)
      moreover have "boardInv ?g'"
        using el2(2) n queue Cons by (simp add: boardInv_def)
      moreover have "Game.more ?g' = Game.more g" by simp
      ultimately show ?thesis by blast
    qed
  qed
qed

lemma pieceInv_more:
  fixes s s' :: Tetris
  shows "Game.more s' = Game.more s \<Longrightarrow> pieceInv s' = pieceInv s"
  by (cases s; cases s') (simp add: pieceInv_def)

lemma pieceInv_display [simp]:
  "pieceInv (s\<lparr>gameElectrodes := ge\<rparr>) = pieceInv s"
  "pieceInv (s\<lparr>electrodes := el\<rparr>) = pieceInv s"
  "pieceInv (s\<lparr>needFilling := q\<rparr>) = pieceInv s"
  "pieceInv (s\<lparr>moving := d\<rparr>) = pieceInv s"
  by (simp_all add: pieceInv_def)

lemma boardInv_display [simp]:
  "boardInv (s\<lparr>gameElectrodes := ge\<rparr>) = boardInv s"
  "boardInv (s\<lparr>rotationState := rs\<rparr>) = boardInv s"
  "boardInv (s\<lparr>currentBlocks := b\<rparr>) = boardInv s"
  "boardInv (s\<lparr>finished := f\<rparr>) = boardInv s"
  "boardInv (s\<lparr>droppingTetro := t\<rparr>) = boardInv s"
  "boardInv (s\<lparr>moving := d\<rparr>) = boardInv s"
  "boardInv (s\<lparr>aboutRotate := a\<rparr>) = boardInv s"
  by (simp_all add: boardInv_def)

lemma boardInv_fields:
  "electrodes g' = electrodes g \<Longrightarrow> needFilling g' = needFilling g \<Longrightarrow>
   currentlyMoving g' = currentlyMoving g \<Longrightarrow> boardInv g' = boardInv g"
  by (simp add: boardInv_def)

lemma testRotations_fields:
  assumes "testRotations d s = Inr (s', ok)"
  shows "electrodes s' = electrodes s" "needFilling s' = needFilling s"
    "currentlyMoving s' = currentlyMoving s"
  using assms
  by (auto simp: testRotations_def Let_def andThen_eq_Inr split: if_splits)

lemma move_fields:
  "electrodes (move d s) = electrodes s" "needFilling (move d s) = needFilling s"
  "currentlyMoving (move d s) = currentlyMoving s"
  by (simp_all add: move_def Let_def split: sum.splits)

lemma applyRotation_fields:
  "electrodes (applyRotation s) = electrodes s" "needFilling (applyRotation s) = needFilling s"
  "currentlyMoving (applyRotation s) = currentlyMoving s"
  by (simp_all add: applyRotation_def split: RotationState.splits)

lemma advance_fields:
  assumes "advance s = Inr s'"
  shows "electrodes s' = electrodes s" "needFilling s' = needFilling s"
    "currentlyMoving s' = currentlyMoving s"
proof -
  from assms obtain s1 where
    s1: "(if aboutRotate s
          then andThen (testRotations 1 s) (\<lambda>(s, ok). Inr (s\<lparr>aboutRotate := False\<rparr>))
          else Inr s) = Inr s1"
    and s': "s' = (if rotationState s1 = NotRotating then move (moving s1) s1
                   else applyRotation s1)"
    by (auto simp: advance_def andThen_eq_Inr)
  have f1: "electrodes s1 = electrodes s \<and> needFilling s1 = needFilling s
            \<and> currentlyMoving s1 = currentlyMoving s"
  proof (cases "aboutRotate s")
    case True
    then obtain t ok where t: "testRotations 1 s = Inr (t, ok)" "s1 = t\<lparr>aboutRotate := False\<rparr>"
      using s1 by (auto simp: andThen_eq_Inr)
    then show ?thesis using testRotations_fields [OF t(1)] by simp
  next
    case False
    then show ?thesis using s1 by simp
  qed
  show "electrodes s' = electrodes s" "needFilling s' = needFilling s"
    "currentlyMoving s' = currentlyMoving s"
    unfolding s' using f1 by (simp_all add: move_fields applyRotation_fields)
qed

lemma spawn_cells_in_electrodes:
  assumes "cellInPlayable p c"
  shows "inElectrodes (tetrisCoordToGameCoord (Vec (vx p + int (fst c)) (vy p + int (snd c))))"
  using assms by (simp add: cellInPlayable_def inElectrodes_def tetrisCoordToGameCoord_def)

lemma primeDroppingTetro_board:
  assumes "boardInv s" "inPlayable (pos (droppingTetro s)) (shape (droppingTetro s))"
  shows "boardInv (primeDroppingTetro s)"
proof -
  have "list_all (\<lambda>c. inElectrodes (tetrisCoordToGameCoord
                        (Vec (vx (pos (droppingTetro s)) + int (fst c))
                             (vy (pos (droppingTetro s)) + int (snd c)))))
          (shapeCells (shape (droppingTetro s)))"
    using assms(2) spawn_cells_in_electrodes
    by (auto simp: inPlayable_def list_all_iff)
  then have "list_all inElectrodes
               (map (\<lambda>(x, y). tetrisCoordToGameCoord
                            (Vec (vx (pos (droppingTetro s)) + int x)
                                 (vy (pos (droppingTetro s)) + int y)))
                  (shapeCells (shape (droppingTetro s))))"
    by (simp add: list_all_iff case_prod_beta)
  then show ?thesis
    using assms(1) by (simp add: primeDroppingTetro_def boardInv_def Let_def)
qed

lemma tick_board:
  assumes "pieceInv s" "boardInv s"
  shows "\<forall>s'. tick rnd s = Inr s' \<longrightarrow> boardInv s'"
proof (cases "finished s")
  case True
  then show ?thesis using assms by (simp add: tick_def)
next
  case False
  from advance_inv [OF assms(1)] obtain s2 where
    a: "advance s = Inr s2" and inv2: "pieceInv s2"
    by blast
  have b2: "boardInv s2"
    using assms(2) boardInv_fields [OF advance_fields [OF a]] by simp
  obtain landed where
    l: "hasLanded s2 (pos (droppingTetro s2)) (shape (droppingTetro s2)) = Inr landed"
    using hasLanded_eq [OF inv2] by blast
  from land_result [OF inv2, of rnd] obtain merged where
    run: "land rnd s2
             = Inr (if (\<exists>X. occupiedAt merged X (int topLevel)) \<or> finished s2
                    then s2\<lparr>rotationState := NotRotating, currentBlocks := merged,
                            finished := True\<rparr>
                    else primeDroppingTetro
                           (s2\<lparr>rotationState := NotRotating, currentBlocks := merged,
                               droppingTetro := newTetromino rnd tetroSpawnPosition\<rparr>))"
    by blast
  let ?fin = "s2\<lparr>rotationState := NotRotating, currentBlocks := merged, finished := True\<rparr>"
  let ?new = "s2\<lparr>rotationState := NotRotating, currentBlocks := merged,
                 droppingTetro := newTetromino rnd tetroSpawnPosition\<rparr>"
  have bf: "boardInv ?fin" using b2 by simp
  have "boardInv ?new" using b2 by simp
  then have bn: "boardInv (primeDroppingTetro ?new)"
    using newTetromino_inv(1) [of rnd] by (intro primeDroppingTetro_board) simp_all
  have t: "tick rnd s = (if landed then land rnd s2 else Inr s2)"
    using False a l by (simp add: tick_def)
  show ?thesis
  proof (cases landed)
    case True
    then have "tick rnd s = land rnd s2" using t by simp
    then show ?thesis unfolding run using bf bn by simp
  next
    case False
    then show ?thesis using t b2 by simp
  qed
qed

lemma transposeElectrodes_grid:
  assumes "isGrid gameSize_x gameSize_y (gameElectrodes s)"
  shows "\<exists>el. transposeElectrodes s = Inr el \<and> isGrid gameSize_y gameSize_x el"
proof -
  have "length (gameElectrodes s) = gameSize_x" using assms by (rule isGrid_length)
  then show ?thesis
    by (simp add: transposeElectrodes_def isGrid_def list_all_iff del: upt_rec_numeral)
qed

lemma render_inv:
  assumes "pieceInv s" "boardInv s"
  shows "\<exists>s'. render s = Inr s' \<and> pieceInv s' \<and> boardInv s'
           \<and> isGrid gameSize_x gameSize_y (gameElectrodes s')"
proof -
  from compose_grid [OF assms(1)] obtain ge where
    c: "compose s = Inr (s\<lparr>gameElectrodes := ge\<rparr>)" and g: "isGrid gameSize_x gameSize_y ge"
    by blast
  let ?s1 = "s\<lparr>gameElectrodes := ge\<rparr>"
  have "isGrid gameSize_x gameSize_y (gameElectrodes ?s1)" using g by simp
  from transposeElectrodes_grid [OF this] obtain el where
    t: "transposeElectrodes ?s1 = Inr el" and e: "isGrid gameSize_y gameSize_x el"
    by blast
  let ?s2 = "?s1\<lparr>electrodes := el\<rparr>"
  have p2: "pieceInv ?s2" using assms(1) by simp
  have b2: "boardInv ?s2" using assms(2) e by (simp add: boardInv_def)
  have "\<exists>s'. Game_render ?s2 = Inr s' \<and> pieceInv s' \<and> boardInv s'
           \<and> isGrid gameSize_x gameSize_y (gameElectrodes s')"
  proof (cases "currentlyMoving s")
    case None
    then show ?thesis using p2 b2 g by (simp add: Game_render_def)
  next
    case (Some cm)
    then have "inElectrodes cm" using assms(2) by (simp add: boardInv_def)
    from gridSet_electrodes [OF e this] obtain el' where
      el': "gridSet el (vy cm) (vx cm) True = Inr el'" "isGrid gameSize_y gameSize_x el'"
      by blast
    have "Game_render ?s2 = Inr (?s2\<lparr>electrodes := el'\<rparr>)"
      using Some el'(1) by (simp add: Game_render_def)
    moreover have "pieceInv (?s2\<lparr>electrodes := el'\<rparr>)" using assms(1) by simp
    moreover have "boardInv (?s2\<lparr>electrodes := el'\<rparr>)"
      using assms(2) el'(2) by (simp add: boardInv_def)
    ultimately show ?thesis using g by simp
  qed
  then show ?thesis by (simp add: render_def c t)
qed

lemma update_inv:
  assumes "pieceInv s" "boardInv s"
  shows "\<exists>s' frames. update newTick rnd s = Inr (s', frames) \<and> pieceInv s' \<and> boardInv s'
           \<and> isGrid gameSize_x gameSize_y (gameElectrodes s')"
proof -
  have "\<exists>s1 frames. (if newTick then
          (if needFilling s \<noteq> [] then fillTick s
           else andThen (tick rnd s) (\<lambda>s. Inr (s, [])))
        else Inr (s, [])) = Inr (s1, frames) \<and> pieceInv s1 \<and> boardInv s1"
  proof (cases "newTick")
    case False
    then show ?thesis using assms by simp
  next
    case True
    show ?thesis
    proof (cases "needFilling s \<noteq> []")
      case fill: True
      from fillTick_inv [OF assms(2)] obtain s1 frames where
        f: "fillTick s = Inr (s1, frames)" "boardInv s1" and m: "Game.more s1 = Game.more s"
        by blast
      have "pieceInv s1" using pieceInv_more [OF m] assms(1) by simp
      then show ?thesis using True fill f by simp
    next
      case False
      from tick_inv [OF assms(1), of rnd] obtain s1 where
        s1: "tick rnd s = Inr s1" "pieceInv s1"
        by blast
      then have "boardInv s1" using tick_board [OF assms, of rnd] by blast
      then show ?thesis using True False s1 by simp
    qed
  qed
  then obtain s1 frames where
    first: "(if newTick then
          (if needFilling s \<noteq> [] then fillTick s
           else andThen (tick rnd s) (\<lambda>s. Inr (s, [])))
        else Inr (s, [])) = Inr (s1, frames)"
    and inv1: "pieceInv s1" "boardInv s1"
    by blast
  from render_inv [OF inv1] obtain s2 where
    r: "render s1 = Inr s2" and inv2: "pieceInv s2" "boardInv s2"
       "isGrid gameSize_x gameSize_y (gameElectrodes s2)"
    by blast
  have "isGrid gameSize_y gameSize_x (electrodes s2)" using inv2(2) by (simp add: boardInv_def)
  then have "isGrid 8 14 (electrodes s2)" by simp
  then have t: "transmit s2 = Inr (encodeFrame (specialElectrodesLeft s2) (electrodes s2)
                                     (specialElectrodesRight s2))"
    by (rule transmit_grid)
  have "update newTick rnd s = Inr (s2, frames @ [encodeFrame (specialElectrodesLeft s2)
                                  (electrodes s2) (specialElectrodesRight s2)])"
    unfolding update_def first using r t by simp
  then show ?thesis using inv2 by blast
qed

lemma init_inv: "\<exists>s frames. init (newTetris rnd) = Inr (s, frames) \<and> engineInv s"
proof -
  let ?s1 = "(newTetris rnd)\<lparr>electrodes := replicate gameSize_y (replicate gameSize_x False),
               specialElectrodesLeft := 0, specialElectrodesRight := 0\<rparr>"
  have "isGrid 8 14 (electrodes ?s1)" using isGrid_replicate [of 8 14] by simp
  then have t: "transmit ?s1 = Inr (encodeFrame (specialElectrodesLeft ?s1) (electrodes ?s1)
                                      (specialElectrodesRight ?s1))"
    by (rule transmit_grid)
  have c: "clear (newTetris rnd) = Inr (?s1, [encodeFrame (specialElectrodesLeft ?s1)
                                     (electrodes ?s1) (specialElectrodesRight ?s1)])"
    unfolding clear_def Let_def t by simp
  let ?s2 = "?s1\<lparr>specialElectrodesLeft := 0b00011000, specialElectrodesRight := 0b00011000,
                availableReservoirs := [TL, BL]\<rparr>"
  have run: "init (newTetris rnd) = Inr (primeDroppingTetro ?s2,
               [encodeFrame (specialElectrodesLeft ?s1) (electrodes ?s1) (specialElectrodesRight ?s1)])"
    unfolding init_def c by simp
  have p2: "pieceInv ?s2"
    using newTetromino_inv [of rnd] isGrid_replicate [of gameSize_x gameSize_y]
    by (simp add: pieceInv_def newTetris_def)
  have b2: "boardInv ?s2"
    using isGrid_replicate [of gameSize_y gameSize_x] by (simp add: boardInv_def newTetris_def)
  have g2: "isGrid gameSize_x gameSize_y (gameElectrodes ?s2)"
    using isGrid_replicate [of gameSize_x gameSize_y] by (simp add: newTetris_def)
  have "inPlayable (pos (droppingTetro ?s2)) (shape (droppingTetro ?s2))"
    using newTetromino_inv(1) [of rnd] by (simp add: newTetris_def)
  then have "boardInv (primeDroppingTetro ?s2)"
    using b2 by (intro primeDroppingTetro_board)
  moreover have "pieceInv (primeDroppingTetro ?s2)"
    using p2 by (simp add: primeDroppingTetro_def Let_def)
  moreover have "isGrid gameSize_x gameSize_y (gameElectrodes (primeDroppingTetro ?s2))"
    using g2 by (simp add: primeDroppingTetro_def Let_def)
  ultimately have "engineInv (primeDroppingTetro ?s2)" by (simp add: engineInv_def)
  then show ?thesis using run by blast
qed

lemma stepEvent_inv:
  assumes "engineInv s"
  shows "\<exists>s'. stepEvent ev s = Inr s' \<and> engineInv s'"
proof (cases ev)
  case (Update newTick rnd)
  from update_inv [of s newTick rnd] assms obtain s' frames where
    "update newTick rnd s = Inr (s', frames)" "engineInv s'"
    by (auto simp: engineInv_def)
  then show ?thesis using Update by simp
next
  case (SetMovement d)
  have "engineInv (setMovement d s)"
    using assms by (simp add: setMovement_def engineInv_def)
  then show ?thesis using SetMovement by simp
next
  case RequestRotate
  have "engineInv (requestRotate s)"
    using assms by (simp add: requestRotate_def engineInv_def)
  then show ?thesis using RequestRotate by simp
qed

lemma events_inv:
  "engineInv s \<Longrightarrow> \<exists>s'. foldE stepEvent evs s = Inr s' \<and> engineInv s'"
proof (induction evs arbitrary: s)
  case Nil
  then show ?case by simp
next
  case (Cons ev evs)
  from stepEvent_inv [OF Cons.prems] obtain s1 where
    s1: "stepEvent ev s = Inr s1" "engineInv s1"
    by blast
  from Cons.IH [OF s1(2)] show ?case using s1(1) by simp
qed

lemma play_inv: "\<exists>s. play rnd evs = Inr s \<and> engineInv s"
proof -
  from init_inv [of rnd] obtain s0 frames where
    i: "init (newTetris rnd) = Inr (s0, frames)" "engineInv s0"
    by blast
  from events_inv [OF i(2), of evs] show ?thesis
    unfolding play_def i(1) by simp
qed

text \<open>
  Claim C8. The Tetris board is the transposed matrix: a cell \<open>(x, y)\<close> of the playable
  grid has \<open>0 \<le> x < gameSize.y\<close> and \<open>0 \<le> y < gameSize.x\<close>. After \<open>init\<close> and any
  sequence of updates and key presses the engine has not failed (no write of a move, a
  rotation, a merge or a render step fell outside its matrix), every occupied cell of the
  active piece lies in the playable grid, and the static grid and the composed
  \<open>gameElectrodes\<close> have exactly the rows and columns of the playable grid, so that
  every occupied cell of either is a cell of the playable grid. The invariant \<open>pieceInv\<close>
  holds in every such state.
\<close>

theorem blocks_stay_in_playable_grid:
  "\<exists>s. play rnd evs = Inr s
     \<and> pieceInv s
     \<and> (\<forall>c \<in> set (shapeCells (shape (droppingTetro s))).
           0 \<le> vx (pos (droppingTetro s)) + int (fst c)
           \<and> vx (pos (droppingTetro s)) + int (fst c) < int gameSize_y
           \<and> 0 \<le> vy (pos (droppingTetro s)) + int (snd c)
           \<and> vy (pos (droppingTetro s)) + int (snd c) < int gameSize_x)
     \<and> isGrid gameSize_x gameSize_y (currentBlocks s)
     \<and> isGrid gameSize_x gameSize_y (gameElectrodes s)
     \<and> (\<forall>X Y. occupiedAt (currentBlocks s) X Y \<longrightarrow>
           0 \<le> X \<and> X < int gameSize_y \<and> 0 \<le> Y \<and> Y < int gameSize_x)
     \<and> (\<forall>X Y. occupiedAt (gameElectrodes s) X Y \<longrightarrow>
           0 \<le> X \<and> X < int gameSize_y \<and> 0 \<le> Y \<and> Y < int gameSize_x)"
proof -
  from play_inv [of rnd evs] obtain s where
    p: "play rnd evs = Inr s" and inv: "engineInv s"
    by blast
  have cells: "\<forall>c \<in> set (shapeCells (shape (droppingTetro s))).
           0 \<le> vx (pos (droppingTetro s)) + int (fst c)
           \<and> vx (pos (droppingTetro s)) + int (fst c) < int gameSize_y
           \<and> 0 \<le> vy (pos (droppingTetro s)) + int (snd c)
           \<and> vy (pos (droppingTetro s)) + int (snd c) < int gameSize_x"
    using inv by (simp add: engineInv_def pieceInv_def inPlayable_def list_all_iff cellInPlayable_def)
  have grids: "isGrid gameSize_x gameSize_y (currentBlocks s)"
    "isGrid gameSize_x gameSize_y (gameElectrodes s)"
    using inv by (simp_all add: engineInv_def pieceInv_def)
  have occ: "0 \<le> X \<and> X < int gameSize_y \<and> 0 \<le> Y \<and> Y < int gameSize_x"
    if "isGrid gameSize_x gameSize_y g" "occupiedAt g X Y" for g X Y
  proof -
    have Y: "0 \<le> Y" "Y < int gameSize_x" "0 \<le> X" and r: "rowCell (g ! nat Y) (nat X)"
      using that by (simp_all add: occupiedAt_def isGrid_def)
    have "nat Y < gameSize_x" using Y by simp
    then have "length (g ! nat Y) = gameSize_y" using that(1) by (intro isGrid_row)
    then have "nat X < gameSize_y" using r by (simp add: rowCell_def)
    then show ?thesis using Y by simp
  qed
  have "pieceInv s" using inv by (simp add: engineInv_def)
  then show ?thesis
    using p cells grids occ [OF grids(1)] occ [OF grids(2)] by blast
qed

theorem landing_merge_and_game_over_witness:
  "pieceInv landingExample \<and> \<not> finished landingExample
   \<and> (\<exists>s'. tick SQUARE landingExample = Inr s' \<and> finished s'
          \<and> occupiedAt (currentBlocks s') 5 3
          \<and> foldE tick [PYRAMID, SQUARE] s' = Inr s')"
proof -
  have inv: "pieceInv landingExample" by code_simp
  have nf: "\<not> finished landingExample" by code_simp
  from landing_merge_and_game_over [OF inv, of SQUARE "[]"] nf obtain s2 s' where
    a: "advance landingExample = Inr s2"
    and t: "tick SQUARE landingExample = Inr s'"
    and l: "hasLanded s2 (pos (droppingTetro s2)) (shape (droppingTetro s2)) = Inr True
              \<longrightarrow> (\<forall>X Y. occupiedAt (currentBlocks s') X Y
                      \<longleftrightarrow> occupiedAt (currentBlocks s2) X Y
                         \<or> (\<exists>c \<in> set (shapeCells (shape (droppingTetro s2))).
                               X = vx (pos (droppingTetro s2)) + int (fst c)
                               \<and> Y = vy (pos (droppingTetro s2)) + int (snd c)))
                  \<and> (finished s' \<longleftrightarrow> (\<exists>X. occupiedAt (currentBlocks s') X (int topLevel)))"
    by blast
  have "(case advance landingExample of
           Inl e \<Rightarrow> False
         | Inr s2 \<Rightarrow>
             hasLanded s2 (pos (droppingTetro s2)) (shape (droppingTetro s2)) = Inr True
             \<and> list_ex (\<lambda>c. 5 = vx (pos (droppingTetro s2)) + int (fst c)
                            \<and> 3 = vy (pos (droppingTetro s2)) + int (snd c))
                  (shapeCells (shape (droppingTetro s2))))"
    by code_simp
  then have landed: "hasLanded s2 (pos (droppingTetro s2)) (shape (droppingTetro s2)) = Inr True"
    and cell: "\<exists>c \<in> set (shapeCells (shape (droppingTetro s2))).
                 5 = vx (pos (droppingTetro s2)) + int (fst c)
                 \<and> 3 = vy (pos (droppingTetro s2)) + int (snd c)"
    unfolding a by (simp_all add: list_ex_iff)
  have occ: "occupiedAt (currentBlocks s') 5 3" using l landed cell by blast
  then have fin: "finished s'" using l landed by (auto simp: topLevel_def)
  from tick_inv [OF inv, of SQUARE] t have inv': "pieceInv s'" by simp
  have "foldE tick [PYRAMID, SQUARE] s' = Inr s'"
    using landing_merge_and_game_over [OF inv', of SQUARE "[PYRAMID, SQUARE]"] fin by blast
  then show ?thesis using inv nf t fin occ by blast
qed

theorem blocks_stay_in_playable_grid_witness:
  "\<exists>s. play PYRAMID [RequestRotate, Update True SQUARE, SetMovement LEFT, Update True SQUARE]
          = Inr s
     \<and> isGrid gameSize_x gameSize_y (currentBlocks s)
     \<and> isGrid gameSize_x gameSize_y (gameElectrodes s)"
  using blocks_stay_in_playable_grid
    [of PYRAMID "[RequestRotate, Update True SQUARE, SetMovement LEFT, Update True SQUARE]"]
  by blast




end
